theory Spec2Isabelle
  imports Main "HOL-Library.AList"
begin

section \<open>Strings\<close>

text \<open>
  A JavaScript string is a sequence of UTF-16 code units; \<open>length\<close> counts code units.
  The model uses \<^typ>\<open>string\<close>, whose characters stand for the code units below 256.
  The class \<open>\s\<close> of regular expressions and the characters removed by \<open>trim()\<close>
  coincide (WhiteSpace and LineTerminator); below 256 they are TAB, LF, VT, FF, CR, SPACE
  and NBSP.
\<close>

definition is_space :: "char \<Rightarrow> bool" where
  "is_space c \<longleftrightarrow>
     c = CHR 0x09 \<or> c = CHR 0x0A \<or> c = CHR 0x0B \<or> c = CHR 0x0C \<or> c = CHR 0x0D \<or>
     c = CHR '' '' \<or> c = CHR 0xA0"

text \<open>\<^verbatim>\<open>text.trim()\<close>\<close>

definition trim :: "string \<Rightarrow> string" where
  "trim s = rev (dropWhile is_space (rev (dropWhile is_space s)))"

text \<open>\<^verbatim>\<open>s.replace(/\s+/g, " ")\<close>: every maximal run of whitespace becomes one space.\<close>

function collapse_spaces :: "string \<Rightarrow> string" where
  "collapse_spaces [] = []"
| "collapse_spaces (c # cs) =
     (if is_space c then CHR '' '' # collapse_spaces (dropWhile is_space cs)
      else c # collapse_spaces cs)"
  by pat_completeness auto
termination
  by (relation "measure length") (auto simp: less_Suc_eq_le length_dropWhile_le)

text \<open>\<^verbatim>\<open>const normalizeText = (text) => text.trim().replace(/\s+/g, " ")\<close>\<close>

definition normalizeText :: "string \<Rightarrow> string" where
  "normalizeText text = collapse_spaces (trim text)"

text \<open>\<^verbatim>\<open>`${sourceLang}-${targetLang}-${text}`\<close>\<close>

definition generateCacheKey :: "string \<Rightarrow> string \<Rightarrow> string \<Rightarrow> string" where
  "generateCacheKey sourceLang targetLang text = sourceLang @ ''-'' @ targetLang @ ''-'' @ text"

text \<open>\<^verbatim>\<open>s.split(sep)\<close> for a separator of one character: never the empty list.\<close>

fun split_on :: "char \<Rightarrow> string \<Rightarrow> string list" where
  "split_on sep [] = [[]]"
| "split_on sep (c # cs) =
     (if c = sep then [] # split_on sep cs
      else (case split_on sep cs of
              [] \<Rightarrow> [[c]]
            | w # ws \<Rightarrow> (c # w) # ws))"

text \<open>\<^verbatim>\<open>parts.join(' ')\<close>\<close>

fun join_space :: "string list \<Rightarrow> string" where
  "join_space [] = []"
| "join_space [x] = x"
| "join_space (x # y # ys) = x @ CHR '' '' # join_space (y # ys)"

section \<open>The chunker of the free-translation client: \<open>splitText\<close>\<close>

text \<open>
  \<^verbatim>\<open>text.replace(/([.!?])\s+/g, "$1\n")\<close>: a sentence terminator followed by whitespace
  keeps the terminator and turns the whole run of whitespace into one line feed.
\<close>

definition is_terminator :: "char \<Rightarrow> bool" where
  "is_terminator c \<longleftrightarrow> c = CHR ''.'' \<or> c = CHR ''!'' \<or> c = CHR ''?''"

function mark_sentences :: "string \<Rightarrow> string" where
  "mark_sentences [] = []"
| "mark_sentences (c # cs) =
     (if is_terminator c \<and> cs \<noteq> [] \<and> is_space (hd cs)
      then c # CHR 0x0A # mark_sentences (dropWhile is_space cs)
      else c # mark_sentences cs)"
  by pat_completeness auto
termination
  by (relation "measure length") (auto simp: less_Suc_eq_le length_dropWhile_le)

text \<open>
  The state of both loops of \<open>splitText\<close> is the pair of the array \<open>chunks\<close> and the
  string \<open>currentChunk\<close>. \<open>flush\<close> is
  \<^verbatim>\<open>if (currentChunk) { chunks.push(currentChunk.trim()); }\<close>.
\<close>

definition flush :: "string list \<Rightarrow> string \<Rightarrow> string list" where
  "flush chunks currentChunk =
     (if currentChunk \<noteq> [] then chunks @ [trim currentChunk] else chunks)"

text \<open>The inner loop \<^verbatim>\<open>for (const word of words)\<close>.\<close>

fun words_loop :: "nat \<Rightarrow> string list \<Rightarrow> string list \<times> string \<Rightarrow> string list \<times> string" where
  "words_loop maxLength [] st = st"
| "words_loop maxLength (word # words) (chunks, currentChunk) =
     (if length currentChunk + length word + 1 \<le> maxLength
      then words_loop maxLength words (chunks, currentChunk @ word @ '' '')
      else words_loop maxLength words (flush chunks currentChunk, word @ '' ''))"

text \<open>The outer loop \<^verbatim>\<open>for (const sentence of sentences)\<close>.\<close>

fun sentences_loop :: "nat \<Rightarrow> string list \<Rightarrow> string list \<times> string \<Rightarrow> string list \<times> string" where
  "sentences_loop maxLength [] st = st"
| "sentences_loop maxLength (sentence # sentences) (chunks, currentChunk) =
     (if length currentChunk + length sentence \<le> maxLength
      then sentences_loop maxLength sentences (chunks, currentChunk @ sentence @ '' '')
      else if length sentence > maxLength
      then sentences_loop maxLength sentences
             (words_loop maxLength (split_on CHR '' '' sentence) (flush chunks currentChunk, []))
      else sentences_loop maxLength sentences (flush chunks currentChunk, sentence @ '' ''))"

text \<open>\<^verbatim>\<open>const sentences = markedText.split("\n")\<close>\<close>

definition sentences_of :: "string \<Rightarrow> string list" where
  "sentences_of text = split_on (CHR 0x0A) (mark_sentences text)"

definition splitText :: "string \<Rightarrow> nat \<Rightarrow> string list" where
  "splitText text maxLength =
     (if length text \<le> maxLength then [text]
      else (case sentences_loop maxLength (sentences_of text) ([], []) of
              (chunks, currentChunk) \<Rightarrow> flush chunks currentChunk))"

section \<open>The chunker of the batching client: \<open>splitTextIntoChunks\<close>\<close>

text \<open>
  \<^verbatim>\<open>text.lastIndexOf(ch, fromIndex)\<close>: the greatest index at most \<open>fromIndex\<close> that
  holds \<open>ch\<close>, or \<open>-1\<close>.
\<close>

fun lastIndexOf :: "char \<Rightarrow> string \<Rightarrow> nat \<Rightarrow> int" where
  "lastIndexOf ch text 0 = (if text \<noteq> [] \<and> text ! 0 = ch then 0 else - 1)"
| "lastIndexOf ch text (Suc i) =
     (if Suc i < length text \<and> text ! Suc i = ch then int (Suc i) else lastIndexOf ch text i)"

text \<open>
  \<^verbatim>\<open>text.substring(a, b)\<close>: both indices are clamped to the length and swapped when
  \<open>a > b\<close>.
\<close>

definition substring :: "string \<Rightarrow> nat \<Rightarrow> nat \<Rightarrow> string" where
  "substring text a b =
     (let a' = min a (length text); b' = min b (length text)
      in take (max a' b' - min a' b') (drop (min a' b') text))"

text \<open>
  The value of \<open>spaceIndex\<close> after
  \<^verbatim>\<open>let spaceIndex = text.lastIndexOf(" ", nextIndex);
  if (spaceIndex <= currentIndex) { spaceIndex = nextIndex; }\<close>
  where \<open>nextIndex = currentIndex + maxChunkLength\<close>.
\<close>

definition spaceIndex :: "string \<Rightarrow> nat \<Rightarrow> nat \<Rightarrow> nat" where
  "spaceIndex text maxChunkLength currentIndex =
     (if lastIndexOf CHR '' '' text (currentIndex + maxChunkLength) \<le> int currentIndex
      then currentIndex + maxChunkLength
      else nat (lastIndexOf CHR '' '' text (currentIndex + maxChunkLength)))"

text \<open>
  The \<^verbatim>\<open>while (currentIndex < text.length)\<close> loop. With \<open>maxChunkLength = 0\<close> the index
  never advances and the loop does not return, hence the option.
\<close>

partial_function (option) chunk_loop ::
  "string \<Rightarrow> nat \<Rightarrow> nat \<Rightarrow> string list \<Rightarrow> string list option" where
  "chunk_loop text maxChunkLength currentIndex chunks =
     (if currentIndex < length text
      then (if currentIndex + maxChunkLength \<ge> length text
            then Some (chunks @ [drop currentIndex text])
            else chunk_loop text maxChunkLength (spaceIndex text maxChunkLength currentIndex)
                   (chunks @
                     [substring text currentIndex (spaceIndex text maxChunkLength currentIndex)]))
      else Some chunks)"

declare chunk_loop.simps [code]

definition splitTextIntoChunks :: "string \<Rightarrow> nat \<Rightarrow> string list option" where
  "splitTextIntoChunks text maxChunkLength = chunk_loop text maxChunkLength 0 []"

section \<open>The result cache\<close>

subsection \<open>With expiry (free-translation client)\<close>

text \<open>
  The \<open>Map\<close> of the class is an association list in insertion order:
  \<open>Map.set\<close> overwrites the value of a key that is present, in place, and appends a new key
  (\<^const>\<open>AList.update\<close>); \<open>Map.delete\<close> is \<^const>\<open>AList.delete\<close>. Timestamps are
  the integers of \<open>Date.now()\<close>, passed as the argument \<open>now\<close>: the synchronous body of a
  method reads one clock value.
\<close>

record CacheEntry =
  entry_value :: string
  entry_timestamp :: int

record TranslationCache =
  cache :: "(string \<times> CacheEntry) list"
  maxSize :: nat
  ttl :: int

definition new_TranslationCache :: "nat \<Rightarrow> int \<Rightarrow> TranslationCache" where
  "new_TranslationCache n t = \<lparr>cache = [], maxSize = n, ttl = t\<rparr>"

definition cache_get :: "int \<Rightarrow> string \<Rightarrow> TranslationCache \<Rightarrow> TranslationCache \<times> string option" where
  "cache_get now key c =
     (case map_of (cache c) key of
        None \<Rightarrow> (c, None)
      | Some entry \<Rightarrow>
          if now - entry_timestamp entry > ttl c
          then (c\<lparr>cache := AList.delete key (cache c)\<rparr>, None)
          else (c, Some (entry_value entry)))"

definition cleanExpired :: "int \<Rightarrow> TranslationCache \<Rightarrow> TranslationCache" where
  "cleanExpired now c =
     c\<lparr>cache := filter (\<lambda>(key, entry). \<not> now - entry_timestamp entry > ttl c) (cache c)\<rparr>"

text \<open>
  \<open>findOldestEntry\<close>: the loop state is \<open>(oldestKey, oldestTime)\<close>, where the time
  \<open>None\<close> is the initial \<open>Infinity\<close>.
\<close>

definition older :: "string option \<times> int option \<Rightarrow> string \<times> CacheEntry \<Rightarrow> string option \<times> int option" where
  "older st ke =
     (case st of (oldestKey, oldestTime) \<Rightarrow>
      case ke of (key, entry) \<Rightarrow>
        if (case oldestTime of None \<Rightarrow> True | Some t \<Rightarrow> entry_timestamp entry < t)
        then (Some key, Some (entry_timestamp entry))
        else (oldestKey, oldestTime))"

definition findOldestEntry :: "TranslationCache \<Rightarrow> string option" where
  "findOldestEntry c = fst (foldl older (None, None) (cache c))"

text \<open>
  \<open>set\<close>. The test \<^verbatim>\<open>if (oldestKey)\<close> is false for \<open>undefined\<close> and for the empty
  string.
\<close>

definition evictOldest :: "TranslationCache \<Rightarrow> TranslationCache" where
  "evictOldest c =
     (if length (cache c) \<ge> maxSize c
      then (case findOldestEntry c of
              None \<Rightarrow> c
            | Some oldestKey \<Rightarrow>
                if oldestKey \<noteq> [] then c\<lparr>cache := AList.delete oldestKey (cache c)\<rparr> else c)
      else c)"

definition cache_set :: "int \<Rightarrow> string \<Rightarrow> string \<Rightarrow> TranslationCache \<Rightarrow> TranslationCache" where
  "cache_set now key v c =
     (let c' = evictOldest (cleanExpired now c)
      in c'\<lparr>cache := AList.update key \<lparr>entry_value = v, entry_timestamp = now\<rparr> (cache c')\<rparr>)"

text \<open>A sequence of \<open>set\<close> calls, each with its clock value, key and value.\<close>

definition set_all :: "(int \<times> string \<times> string) list \<Rightarrow> TranslationCache \<Rightarrow> TranslationCache" where
  "set_all ops c = foldl (\<lambda>c (now, key, v). cache_set now key v c) c ops"

subsection \<open>Without expiry (batching client)\<close>

record TranslationCache_p6 =
  cache_p6 :: "(string \<times> string) list"
  maxSize_p6 :: nat

definition new_TranslationCache_p6 :: "nat \<Rightarrow> TranslationCache_p6" where
  "new_TranslationCache_p6 n = \<lparr>cache_p6 = [], maxSize_p6 = n\<rparr>"


text \<open>
  \<open>set\<close>: \<^verbatim>\<open>this.cache.keys().next().value\<close> is the first key in insertion order, and
  \<open>undefined\<close> for an empty map, whose deletion does nothing.
\<close>

definition cache_set_p6 :: "string \<Rightarrow> string \<Rightarrow> TranslationCache_p6 \<Rightarrow> TranslationCache_p6" where
  "cache_set_p6 key v c =
     (let c' = (if length (cache_p6 c) \<ge> maxSize_p6 c
                then (case cache_p6 c of
                        [] \<Rightarrow> c
                      | (firstKey, _) # _ \<Rightarrow> c\<lparr>cache_p6 := AList.delete firstKey (cache_p6 c)\<rparr>)
                else c)
      in c'\<lparr>cache_p6 := AList.update key v (cache_p6 c')\<rparr>)"

definition set_all_p6 :: "(string \<times> string) list \<Rightarrow> TranslationCache_p6 \<Rightarrow> TranslationCache_p6" where
  "set_all_p6 ops c = foldl (\<lambda>c (key, v). cache_set_p6 key v c) c ops"

subsection \<open>Notions used to state the eviction properties\<close>

text \<open>The entry that \<open>set\<close> stores for a call \<open>(now, key, value)\<close>, and the keys of calls.\<close>

definition entry_of :: "int \<times> string \<times> string \<Rightarrow> string \<times> CacheEntry" where
  "entry_of op = (case op of (now, key, v) \<Rightarrow> (key, \<lparr>entry_value = v, entry_timestamp = now\<rparr>))"

definition keys_of :: "(int \<times> string \<times> string) list \<Rightarrow> string list" where
  "keys_of ops = map (\<lambda>op. fst (snd op)) ops"

text \<open>
  The clock does not run backwards over a sequence of calls, and any two of the calls are at
  most \<open>t\<close> apart, so that no entry of one expires before another call.
\<close>

definition steady_clock :: "int \<Rightarrow> (int \<times> string \<times> string) list \<Rightarrow> bool" where
  "steady_clock t ops \<longleftrightarrow>
     sorted (map fst ops) \<and> (\<forall>a \<in> set ops. \<forall>b \<in> set ops. fst b - fst a \<le> t)"

section \<open>The concurrency limiter\<close>

text \<open>
  \<open>tasks\<close> holds the \<open>resolve\<close> callbacks of the suspended callers, here the names of
  those callers. The body of \<open>acquire\<close> up to its \<open>await\<close> and the body of \<open>release\<close> are
  synchronous, so each is one step. \<open>acquire\<close> returns whether the permit was taken at once
  (\<open>True\<close>) or the caller was queued (\<open>False\<close>); \<open>release\<close> returns the caller whose
  callback it has called, if any.
\<close>

record Semaphore =
  count :: int
  tasks :: "nat list"

definition new_Semaphore :: "int \<Rightarrow> Semaphore" where
  "new_Semaphore n = \<lparr>count = n, tasks = []\<rparr>"

definition acquire :: "nat \<Rightarrow> Semaphore \<Rightarrow> Semaphore \<times> bool" where
  "acquire caller s =
     (if count s > 0 then (s\<lparr>count := count s - 1\<rparr>, True)
      else (s\<lparr>tasks := tasks s @ [caller]\<rparr>, False))"

definition release :: "Semaphore \<Rightarrow> Semaphore \<times> nat option" where
  "release s =
     (let s1 = s\<lparr>count := count s + 1\<rparr>
      in if length (tasks s1) > 0
         then (s1\<lparr>count := count s1 - 1, tasks := tl (tasks s1)\<rparr>, Some (hd (tasks s1)))
         else (s1, None))"

text \<open>
  The limiter in use: a semaphore and the callers that are between a completed \<open>acquire\<close>
  and the matching \<open>release\<close> (a caller is listed once for each permit it holds). A caller
  completes its \<open>acquire\<close> at once when a permit is free, and otherwise when a \<open>release\<close>
  calls its callback. \<open>Release c\<close> is the matching release of a caller that holds a permit;
  from any other caller it is not a step.
\<close>

datatype call = Acquire nat | Release nat

record limiter =
  lim_sem :: Semaphore
  admitted :: "nat list"

definition new_limiter :: "int \<Rightarrow> limiter" where
  "new_limiter n = \<lparr>lim_sem = new_Semaphore n, admitted = []\<rparr>"

fun step :: "limiter \<Rightarrow> call \<Rightarrow> limiter option" where
  "step l (Acquire c) =
     (case acquire c (lim_sem l) of
        (s, True) \<Rightarrow> Some \<lparr>lim_sem = s, admitted = c # admitted l\<rparr>
      | (s, False) \<Rightarrow> Some \<lparr>lim_sem = s, admitted = admitted l\<rparr>)"
| "step l (Release c) =
     (if c \<in> set (admitted l)
      then (case release (lim_sem l) of
              (s, None) \<Rightarrow> Some \<lparr>lim_sem = s, admitted = remove1 c (admitted l)\<rparr>
            | (s, Some w) \<Rightarrow> Some \<lparr>lim_sem = s, admitted = w # remove1 c (admitted l)\<rparr>)
      else None)"

fun run :: "limiter \<Rightarrow> call list \<Rightarrow> limiter option" where
  "run l [] = Some l"
| "run l (c # cs) = (case step l c of None \<Rightarrow> None | Some l' \<Rightarrow> run l' cs)"

section \<open>The upstream call executor\<close>

subsection \<open>Failures, requests and the network\<close>

text \<open>
  What a \<^verbatim>\<open>catch (error)\<close> can receive: an error of axios, with its \<open>code\<close> and the
  status of its response (\<open>error.response?.status\<close>, absent when no response arrived), or
  any other error. \<open>message\<close> is \<open>error.message\<close>.
\<close>

datatype failure =
    AxiosError (ax_code: "string option") (ax_status: "nat option") (ax_message: string)
  | JsError (js_message: string)

fun message :: "failure \<Rightarrow> string" where
  "message (AxiosError code status msg) = msg"
| "message (JsError msg) = msg"

datatype 'r outcome = Resolve 'r | Reject failure

text \<open>
  How a call of an \<^verbatim>\<open>async\<close> function ends when it is run on its own, with no other
  call running in between: it returns, it throws, or it stays suspended on a permit that only
  another call could release (\<open>Pending\<close>). \<open>Forked\<close> stands for a call that has started
  one concurrent call for each of the listed texts (\<^verbatim>\<open>Promise.all\<close>); the sequential model
  does not follow those.
\<close>

datatype 'a settled = Returned 'a | Thrown failure | Pending | Forked "string list"

datatype AbortSignal = AbortSignal (aborted: bool)

text \<open>
  The request configuration given to axios: source and target language, the text \<open>q\<close>, the
  timeout, and the optional abort signal of the configuration. The headers are left out.
\<close>

record 'q request =
  req_source :: string
  req_target :: string
  req_q :: 'q
  req_timeout :: nat
  req_signal :: "AbortSignal option"

text \<open>
  The trace of a run: every invocation of \<open>callTranslationAPI\<close> with its attempt number,
  every request sent, every backoff sleep with its base delay, and every \<open>release\<close> of the
  \<^verbatim>\<open>finally\<close> block; the integer is the number of free permits at that moment.
\<close>

datatype 'q event =
    Invoke nat
  | Request nat int "'q request"
  | Backoff nat int nat
  | Released nat int

text \<open>
  The network: the outcome of the \<open>n\<close>-th request sent, the milliseconds it takes, and the
  milliseconds by which the sleep after it exceeds the base delay (the random jitter and the
  lateness of the timer).
\<close>

record 'r upstream =
  respond :: "nat \<Rightarrow> 'r outcome"
  latency :: "nat \<Rightarrow> nat"
  lateness :: "nat \<Rightarrow> nat"

record 'q net =
  semaphore :: Semaphore
  clock :: int
  trace :: "'q event list"

fun is_request :: "'q event \<Rightarrow> bool" where
  "is_request (Request attempt free req) = True"
| "is_request e = False"

definition sent :: "'q event list \<Rightarrow> nat" where
  "sent tr = length (filter is_request tr)"

subsection \<open>Constants and the classification of failures\<close>

definition TIMEOUT :: nat where "TIMEOUT = 8000"
definition RETRIES :: nat where "RETRIES = 5"
definition RETRY_DELAY :: nat where "RETRY_DELAY = 500"
definition MAX_CONCURRENT_REQUESTS :: int where "MAX_CONCURRENT_REQUESTS = 3"
definition MAX_TEXT_LENGTH :: nat where "MAX_TEXT_LENGTH = 5000"


text \<open>\<^verbatim>\<open>error.response?.status || 500\<close>: an absent status and the status 0 count as 500.\<close>

definition status_or_500 :: "nat option \<Rightarrow> nat" where
  "status_or_500 status = (case status of None \<Rightarrow> 500 | Some s \<Rightarrow> if s = 0 then 500 else s)"

text \<open>
  \<^verbatim>\<open>axios.isAxiosError(error) && (error.code === "ECONNABORTED" ||
  (error.response?.status || 500) === 429 || (error.response?.status || 500) >= 500)\<close>
  in the free-translation client (with and without the limiter).
\<close>

fun isRetryable :: "failure \<Rightarrow> bool" where
  "isRetryable (AxiosError code status msg) \<longleftrightarrow>
     code = Some ''ECONNABORTED'' \<or> status_or_500 status = 429 \<or> status_or_500 status \<ge> 500"
| "isRetryable (JsError msg) \<longleftrightarrow> False"


text \<open>What differs between the clients that use the limiter.\<close>

record config =
  cfg_retries :: nat
  cfg_retryable :: "failure \<Rightarrow> bool"
  cfg_delay :: "nat \<Rightarrow> nat"

text \<open>\<^verbatim>\<open>RETRY_DELAY * Math.pow(2, attempt)\<close> and \<^verbatim>\<open>RETRY_DELAY * (attempt + 1)\<close>\<close>

definition free_config :: config where
  "free_config =
     \<lparr>cfg_retries = RETRIES, cfg_retryable = isRetryable,
      cfg_delay = (\<lambda>attempt. RETRY_DELAY * 2 ^ attempt)\<rparr>"


subsection \<open>\<open>callTranslationAPI\<close> with the limiter\<close>

text \<open>The \<^verbatim>\<open>finally { semaphore.release(); }\<close> of the attempt.\<close>

definition finally_release :: "nat \<Rightarrow> 'q net \<Rightarrow> 'q net" where
  "finally_release attempt w =
     (case release (semaphore w) of
        (s, woken) \<Rightarrow> w\<lparr>semaphore := s, trace := trace w @ [Released attempt (count s)]\<rparr>)"

text \<open>Sending the request and waiting for its outcome.\<close>

definition send :: "'r upstream \<Rightarrow> 'q request \<Rightarrow> nat \<Rightarrow> 'q net \<Rightarrow> 'q net" where
  "send up req attempt w =
     w\<lparr>trace := trace w @ [Request attempt (count (semaphore w)) req],
       clock := clock w + int (latency up (sent (trace w)))\<rparr>"

text \<open>The sleep before the retry.\<close>

definition sleep :: "config \<Rightarrow> 'r upstream \<Rightarrow> nat \<Rightarrow> nat \<Rightarrow> 'q net \<Rightarrow> 'q net" where
  "sleep cfg up n attempt w =
     w\<lparr>trace := trace w @ [Backoff attempt (count (semaphore w)) (cfg_delay cfg attempt)],
       clock := clock w + int (cfg_delay cfg attempt) + int (lateness up n)\<rparr>"

text \<open>
  The synchronous start of a call: \<^verbatim>\<open>await semaphore.acquire()\<close> takes a free permit or
  queues the callback of the call.
\<close>

definition enter :: "nat \<Rightarrow> 'q net \<Rightarrow> 'q net \<times> bool" where
  "enter attempt w =
     (case acquire attempt (semaphore w) of
        (s, got) \<Rightarrow> (w\<lparr>semaphore := s, trace := trace w @ [Invoke attempt]\<rparr>, got))"

text \<open>
  The body of a call that holds its permit, run on its own (no other call runs in between).

  The retry is \<^verbatim>\<open>return callTranslationAPI(params, attempt + 1)\<close>, without \<open>await\<close>, inside
  \<^verbatim>\<open>try ... finally\<close>: the recursive call runs its synchronous start and hands back its
  promise, then the \<^verbatim>\<open>finally\<close> block of the current attempt releases the permit, and the
  result of the current attempt is the result of the retry. The retry goes on when it has taken
  a free permit, or when its callback stood at the head of the queue (the queue was empty
  before) and the release has called it. Otherwise it stays suspended until another call
  releases a permit, which this model of one call does not follow: \<open>Pending\<close>.
\<close>

function attempt_body ::
  "config \<Rightarrow> 'r upstream \<Rightarrow> 'q request \<Rightarrow> nat \<Rightarrow> 'q net \<Rightarrow> 'q net \<times> 'r settled" where
  "attempt_body cfg up req attempt w =
     (case respond up (sent (trace w)) of
        Resolve response \<Rightarrow>
          (finally_release attempt (send up req attempt w), Returned response)
      | Reject error \<Rightarrow>
          if attempt \<ge> cfg_retries cfg
          then (finally_release attempt (send up req attempt w), Thrown error)
          else if cfg_retryable cfg error
          then (case enter (attempt + 1)
                       (sleep cfg up (sent (trace w)) attempt (send up req attempt w)) of
                  (w', got) \<Rightarrow>
                    if got \<or> tasks (semaphore w) = []
                    then attempt_body cfg up req (attempt + 1) (finally_release attempt w')
                    else (finally_release attempt w', Pending))
          else (finally_release attempt (send up req attempt w), Thrown error))"
  by pat_completeness auto
termination
  by (relation "measure (\<lambda>(cfg, up, req, attempt, w). cfg_retries cfg - attempt)") auto

declare attempt_body.simps [simp del]

text \<open>\<open>callTranslationAPI(params, attempt)\<close>, run on its own.\<close>

definition callTranslationAPI_limited ::
  "config \<Rightarrow> 'r upstream \<Rightarrow> 'q request \<Rightarrow> nat \<Rightarrow> 'q net \<Rightarrow> 'q net \<times> 'r settled" where
  "callTranslationAPI_limited cfg up req attempt w =
     (case enter attempt w of
        (w', True) \<Rightarrow> attempt_body cfg up req attempt w'
      | (w', False) \<Rightarrow> (w', Pending))"

subsection \<open>\<open>callTranslationAPI\<close> without the limiter\<close>

text \<open>The variant of the client that has neither limiter nor cache.\<close>

function callTranslationAPI_p7 ::
  "'r upstream \<Rightarrow> 'q request \<Rightarrow> nat \<Rightarrow> 'q net \<Rightarrow> 'q net \<times> 'r settled" where
  "callTranslationAPI_p7 up req attempt w =
     (case respond up (sent (trace w)) of
        Resolve response \<Rightarrow>
          (send up req attempt (w\<lparr>trace := trace w @ [Invoke attempt]\<rparr>), Returned response)
      | Reject error \<Rightarrow>
          if attempt \<ge> RETRIES
          then (send up req attempt (w\<lparr>trace := trace w @ [Invoke attempt]\<rparr>), Thrown error)
          else if isRetryable error
          then callTranslationAPI_p7 up req (attempt + 1)
                 (sleep free_config up (sent (trace w)) attempt
                    (send up req attempt (w\<lparr>trace := trace w @ [Invoke attempt]\<rparr>)))
          else (send up req attempt (w\<lparr>trace := trace w @ [Invoke attempt]\<rparr>), Thrown error))"
  by pat_completeness auto
termination
  by (relation "measure (\<lambda>(up, req, attempt, w). RETRIES - attempt)") auto

declare callTranslationAPI_p7.simps [simp del]

section \<open>The free-translation client with cache and limiter\<close>

text \<open>
  The data of a response as a JSON value. The client reads \<open>response.data[0]\<close>, an array of
  sentences, each an array whose first element is the translated fragment.
\<close>

datatype json = JNull | JBool bool | JNum int | JStr string | JArr "json list"
  | JObj "(string \<times> json) list"

record 'q params =
  p_source :: string
  p_target :: string
  p_q :: 'q

text \<open>
  \<^verbatim>\<open>axios.get(API_URL, { params: { client, sl, tl, dt, q }, headers, timeout: TIMEOUT })\<close>:
  the configuration has no \<open>signal\<close>.
\<close>

definition axios_get :: "string params \<Rightarrow> string request" where
  "axios_get params =
     \<lparr>req_source = p_source params, req_target = p_target params, req_q = p_q params,
      req_timeout = TIMEOUT, req_signal = None\<rparr>"

definition callTranslationAPI ::
  "json upstream \<Rightarrow> string params \<Rightarrow> nat \<Rightarrow> string net \<Rightarrow> string net \<times> json settled" where
  "callTranslationAPI up params attempt w =
     callTranslationAPI_limited free_config up (axios_get params) attempt w"



text \<open>\<^verbatim>\<open>new Error(`Error en traduccion: ${(error as Error).message}`)\<close>, with its accent.\<close>

definition translation_error :: "failure \<Rightarrow> failure" where
  "translation_error error = JsError (''Error en traducci'' @ [CHR 0xF3] @ ''n: '' @ message error)"



text \<open>
  \<open>translateMultiple\<close> is
  \<^verbatim>\<open>Promise.all(texts.map(text => translate(targetLang, sourceLang, text)))\<close>: the calls of
  \<open>translate\<close> run concurrently. What is modelled is its synchronous part. \<open>texts.map\<close> runs
  each call of \<open>translate\<close> up to its first \<open>await\<close> that suspends, in the order of the
  texts: the text is normalised and looked up in the cache and, when it is not cached,
  \<open>callTranslationAPI\<close> is called and runs up to \<^verbatim>\<open>await semaphore.acquire()\<close>; for a long text
  this happens for each of its chunks.
\<close>

definition call_start :: "string \<Rightarrow> TranslationCache \<times> string net \<Rightarrow> TranslationCache \<times> string net" where
  "call_start cacheKey st =
     (case st of (c, w) \<Rightarrow>
        (case cache_get (clock w) cacheKey c of
           (c', Some cached) \<Rightarrow> if cached \<noteq> [] then (c', w) else (c', fst (enter 0 w))
         | (c', None) \<Rightarrow> (c', fst (enter 0 w))))"

definition translate_start ::
  "string \<Rightarrow> string \<Rightarrow> string \<Rightarrow> TranslationCache \<times> string net \<Rightarrow> TranslationCache \<times> string net" where
  "translate_start targetLang sourceLang text st =
     (case st of (c, w) \<Rightarrow>
        if normalizeText text = [] then st
        else (case cache_get (clock w)
                     (generateCacheKey sourceLang targetLang (normalizeText text)) c of
                (c', Some cached) \<Rightarrow>
                  if cached \<noteq> [] then (c', w)
                  else if length (normalizeText text) > MAX_TEXT_LENGTH
                  then foldl (\<lambda>st chunk. call_start (generateCacheKey sourceLang targetLang chunk) st)
                         (c', w) (splitText (normalizeText text) MAX_TEXT_LENGTH)
                  else (c', fst (enter 0 w))
              | (c', None) \<Rightarrow>
                  if length (normalizeText text) > MAX_TEXT_LENGTH
                  then foldl (\<lambda>st chunk. call_start (generateCacheKey sourceLang targetLang chunk) st)
                         (c', w) (splitText (normalizeText text) MAX_TEXT_LENGTH)
                  else (c', fst (enter 0 w))))"

definition translateMultiple_start ::
  "string list \<Rightarrow> string \<Rightarrow> string \<Rightarrow> TranslationCache \<times> string net \<Rightarrow> TranslationCache \<times> string net" where
  "translateMultiple_start texts targetLang sourceLang st =
     foldl (\<lambda>st text. translate_start targetLang sourceLang text st) st texts"

text \<open>The number of calls of \<open>callTranslationAPI\<close> made from outside it, with \<open>attempt = 0\<close>.\<close>

definition invocations :: "'q event list \<Rightarrow> nat" where
  "invocations tr = length (filter (\<lambda>e. e = Invoke 0) tr)"

section \<open>The batching client\<close>

text \<open>
  \<open>params.q\<close> has type \<open>any\<close>: \<open>translate\<close> passes one string, \<open>translateMultiple\<close> the
  array \<open>batchTexts\<close>. The body of a response is read through
  \<^verbatim>\<open>data?.data?.translations?.map((t) => t.translatedText)\<close>: the translated texts, or nothing
  when a part of that path is missing.
\<close>

datatype query = One string | Many "string list"









section \<open>The free-translation client without cache and limiter\<close>

text \<open>\<^verbatim>\<open>str.replace(/pattern/g, replacement)\<close> for a pattern that is a fixed, non-empty string.\<close>

function replace_all :: "string \<Rightarrow> string \<Rightarrow> string \<Rightarrow> string" where
  "replace_all pat rep s =
     (if pat = [] \<or> s = [] then s
      else if take (length pat) s = pat then rep @ replace_all pat rep (drop (length pat) s)
      else hd s # replace_all pat rep (tl s))"
  by pat_completeness auto
termination
  by (relation "measure (\<lambda>(pat, rep, s). length s)") auto

declare replace_all.simps [simp del]

text \<open>
  \<open>decodeHtmlEntities\<close>: the entities for the ampersand, the angle brackets, the double
  quote and the apostrophe, replaced in this order.
\<close>

definition decodeHtmlEntities :: "string \<Rightarrow> string" where
  "decodeHtmlEntities str =
     (if str = [] then str
      else replace_all ''&#39;'' [CHR 0x27]
             (replace_all ''&quot;'' [CHR 0x22]
                (replace_all ''&gt;'' ''>''
                   (replace_all ''&lt;'' ''<''
                      (replace_all ''&amp;'' ''&'' str)))))"

text \<open>
  \<^verbatim>\<open>joined.replace(/\s+([.,!?;:])/g, '$1')\<close>: a run of whitespace in front of a punctuation
  mark is removed; any other run stays.
\<close>

definition is_punctuation :: "char \<Rightarrow> bool" where
  "is_punctuation c \<longleftrightarrow>
     c = CHR ''.'' \<or> c = CHR '','' \<or> c = CHR ''!'' \<or> c = CHR ''?'' \<or> c = CHR '';'' \<or> c = CHR '':''"

function close_up :: "string \<Rightarrow> string" where
  "close_up [] = []"
| "close_up (c # cs) =
     (if is_space c
      then (case dropWhile is_space cs of
              [] \<Rightarrow> c # takeWhile is_space cs
            | p # rest \<Rightarrow>
                if is_punctuation p then p # close_up rest
                else c # takeWhile is_space cs @ p # close_up rest)
      else c # close_up cs)"
  by pat_completeness auto
termination
proof (relation "measure length")
  show "wf (measure length)" by simp
next
  fix c :: char and cs :: string and p :: char and rest :: string
  assume "dropWhile is_space cs = p # rest"
  then have "length (p # rest) \<le> length cs"
    using length_dropWhile_le [of is_space cs] by simp
  then show "(rest, c # cs) \<in> measure length" by simp
  then show "(rest, c # cs) \<in> measure length" .
next
  fix c :: char and cs :: string
  show "(cs, c # cs) \<in> measure length" by simp
qed

text \<open>\<open>processTranslationResponse(response)\<close> of this client: no cache.\<close>

fun translatedParts_p7 :: "json list \<Rightarrow> string list" where
  "translatedParts_p7 [] = []"
| "translatedParts_p7 (JArr (JStr s # rest) # sentences) =
     decodeHtmlEntities s # translatedParts_p7 sentences"
| "translatedParts_p7 (sentence # sentences) = translatedParts_p7 sentences"

definition processTranslationResponse_p7 :: "json \<Rightarrow> failure + string" where
  "processTranslationResponse_p7 data =
     (case data of
        JArr (mainTranslationData # rest) \<Rightarrow>
          (case mainTranslationData of
             JArr sentences \<Rightarrow>
               if translatedParts_p7 sentences = []
               then Inl (JsError (''No se encontr'' @ [CHR 0xF3] @ '' traducci'' @ [CHR 0xF3] @ ''n''))
               else Inr (trim (close_up (join_space (translatedParts_p7 sentences))))
           | _ \<Rightarrow>
               Inl (JsError (''Formato de traducci'' @ [CHR 0xF3] @ ''n inv'' @ [CHR 0xE1] @ ''lido'')))
      | _ \<Rightarrow> Inl (JsError (''Respuesta de API inv'' @ [CHR 0xE1] @ ''lida'')))"

text \<open>
  \<open>detectLanguage(text)\<close>: the language is the string at \<open>response.data[2]\<close>. An error thrown
  inside the \<^verbatim>\<open>try\<close> block, also the one of the block itself, is wrapped by the
  \<^verbatim>\<open>catch\<close> block.
\<close>

definition detection_error :: "failure \<Rightarrow> failure" where
  "detection_error error =
     JsError (''Error en detecci'' @ [CHR 0xF3] @ ''n de idioma: '' @ message error)"

definition detectLanguage_p7 ::
  "json upstream \<Rightarrow> string \<Rightarrow> string net \<Rightarrow> string net \<times> string settled" where
  "detectLanguage_p7 up text w =
     (if normalizeText text = []
      then (w, Thrown (JsError (''El texto no puede estar vac'' @ [CHR 0xED] @ ''o'')))
      else (case callTranslationAPI_p7 up
                   (axios_get \<lparr>p_source = ''auto'', p_target = ''en'',
                                p_q = take 1000 (normalizeText text)\<rparr>) 0 w of
              (w', Returned (JArr (a # b # JStr detectedLang # rest))) \<Rightarrow> (w', Returned detectedLang)
            | (w', Returned response) \<Rightarrow>
                (w', Thrown (detection_error (JsError ''No se pudo detectar el idioma'')))
            | (w', Thrown error) \<Rightarrow> (w', Thrown (detection_error error))
            | (w', Pending) \<Rightarrow> (w', Pending)
            | (w', Forked ts) \<Rightarrow> (w', Forked ts)))"

text \<open>The argument \<open>options?: { signal?: AbortSignal }\<close>.\<close>

record options =
  opt_signal :: "AbortSignal option"

text \<open>The \<^verbatim>\<open>try\<close> block of \<open>translate\<close>, with the effective source language.\<close>

definition translate_try_p7 ::
  "json upstream \<Rightarrow> string \<Rightarrow> string \<Rightarrow> string \<Rightarrow> string net \<Rightarrow> string net \<times> string settled" where
  "translate_try_p7 up targetLang effectiveSource cleanedText w =
     (if length cleanedText > MAX_TEXT_LENGTH
      then (w, Forked (splitText cleanedText MAX_TEXT_LENGTH))
      else (case callTranslationAPI_p7 up
                   (axios_get \<lparr>p_source = effectiveSource, p_target = targetLang,
                                p_q = cleanedText\<rparr>) 0 w of
              (w', Returned response) \<Rightarrow>
                (case processTranslationResponse_p7 response of
                   Inr translatedText \<Rightarrow> (w', Returned translatedText)
                 | Inl error \<Rightarrow> (w', Thrown (translation_error error)))
            | (w', Thrown error) \<Rightarrow> (w', Thrown (translation_error error))
            | (w', Pending) \<Rightarrow> (w', Pending)
            | (w', Forked ts) \<Rightarrow> (w', Forked ts)))"

text \<open>
  \<open>translate(targetLang, sourceLang, text, options)\<close>. For the source languages \<open>auto\<close> and
  \<open>auto-detect\<close> the language is detected first, and \<open>auto\<close> is used when that fails. The
  body never reads \<open>options\<close>.
\<close>

definition translate_p7 ::
  "json upstream \<Rightarrow> string \<Rightarrow> string \<Rightarrow> string \<Rightarrow> options option \<Rightarrow> string net \<Rightarrow>
     string net \<times> string settled" where
  "translate_p7 up targetLang sourceLang text opts w =
     (if normalizeText text = []
      then (w, Thrown (JsError (''El texto a traducir no puede estar vac'' @ [CHR 0xED] @ ''o.'')))
      else if sourceLang = ''auto'' \<or> sourceLang = ''auto-detect''
      then (case detectLanguage_p7 up (normalizeText text) w of
              (w', Returned detected) \<Rightarrow> translate_try_p7 up targetLang detected (normalizeText text) w'
            | (w', Thrown error) \<Rightarrow> translate_try_p7 up targetLang ''auto'' (normalizeText text) w'
            | (w', Pending) \<Rightarrow> (w', Pending)
            | (w', Forked ts) \<Rightarrow> (w', Forked ts))
      else translate_try_p7 up targetLang sourceLang (normalizeText text) w)"

section \<open>Notions used to state the properties of the chunkers\<close>

text \<open>The non-whitespace characters of a string, in their order.\<close>

definition nonspace :: "string \<Rightarrow> string" where
  "nonspace s = filter (\<lambda>c. \<not> is_space c) s"

text \<open>The non-whitespace characters held by a loop state of \<open>splitText\<close>.\<close>

definition content :: "string list \<times> string \<Rightarrow> string" where
  "content st = concat (map nonspace (fst st)) @ nonspace (snd st)"

text \<open>
  The loop invariant behind the length bound: the pushed chunks are within the limit and
  \<open>currentChunk\<close> is empty or ends in the space that was appended to it, which
  \<open>trim\<close> removes again.
\<close>

definition within :: "nat \<Rightarrow> string list \<times> string \<Rightarrow> bool" where
  "within m st \<longleftrightarrow>
     (\<forall>c \<in> set (fst st). length c \<le> m) \<and>
     (snd st = [] \<or> (is_space (last (snd st)) \<and> length (snd st) \<le> m + 1))"

text \<open>
  The condition under which \<open>splitText\<close> has a word boundary wherever it needs one: no
  space-separated word of a sentence is longer than the limit.
\<close>

definition words_fit :: "string \<Rightarrow> nat \<Rightarrow> bool" where
  "words_fit text m \<longleftrightarrow>
     (\<forall>s \<in> set (sentences_of text). \<forall>w \<in> set (split_on CHR '' '' s). length w \<le> m)"

section \<open>Notions used to state the properties of the call executor\<close>

text \<open>The events that a run has added to the trace.\<close>

definition new_events :: "'q net \<Rightarrow> 'q net \<Rightarrow> 'q event list" where
  "new_events w w' = drop (length (trace w)) (trace w')"

text \<open>The attempt numbers of the requests in a trace, in the order in which they were sent.\<close>

fun attempts_of :: "'q event list \<Rightarrow> nat list" where
  "attempts_of [] = []"
| "attempts_of (Request a f r # evs) = a # attempts_of evs"
| "attempts_of (ev # evs) = attempts_of evs"

text \<open>A call has returned or thrown.\<close>

definition settles :: "'a settled \<Rightarrow> bool" where
  "settles r \<longleftrightarrow> (case r of Returned x \<Rightarrow> True | Thrown e \<Rightarrow> True | _ \<Rightarrow> False)"

text \<open>
  The state in which the retry of attempt \<open>a\<close> goes on: the request of attempt \<open>a\<close> has
  failed, the sleep is over, the retry has run its synchronous start and the \<^verbatim>\<open>finally\<close>
  block of attempt \<open>a\<close> has released the permit.
\<close>

definition handover :: "config \<Rightarrow> 'r upstream \<Rightarrow> 'q request \<Rightarrow> nat \<Rightarrow> 'q net \<Rightarrow> 'q net" where
  "handover cfg up req attempt w =
     finally_release attempt
       (fst (enter (attempt + 1) (sleep cfg up (sent (trace w)) attempt (send up req attempt w))))"

text \<open>
  An event of a call that holds one permit while \<open>f\<close> permits are free: its requests (of
  attempts from \<open>a\<close> on, all carrying \<open>req\<close>) and its sleeps see \<open>f\<close> free permits, its
  releases leave \<open>f\<close> (a retry holds the permit that was handed over) or \<open>f + 1\<close> (the call is
  over), and it invokes later attempts only.
\<close>

fun holds_one :: "int \<Rightarrow> 'q request \<Rightarrow> nat \<Rightarrow> 'q event \<Rightarrow> bool" where
  "holds_one f req a (Request a' f' r) \<longleftrightarrow> f' = f \<and> r = req \<and> a \<le> a'"
| "holds_one f req a (Backoff a' f' d) \<longleftrightarrow> f' = f"
| "holds_one f req a (Released a' f') \<longleftrightarrow> f' = f \<or> f' = f + 1"
| "holds_one f req a (Invoke a') \<longleftrightarrow> a < a'"

text \<open>One attempt of the client without limiter: the invocation and its request.\<close>

definition step_p7 :: "'r upstream \<Rightarrow> 'q request \<Rightarrow> nat \<Rightarrow> 'q net \<Rightarrow> 'q net" where
  "step_p7 up req a w = send up req a (w\<lparr>trace := trace w @ [Invoke a]\<rparr>)"


text \<open>
  The result of a cache lookup that does not end the call: \<^verbatim>\<open>if (cached)\<close> is false for a
  missing entry and for the empty string.
\<close>

definition uncached :: "string option \<Rightarrow> bool" where
  "uncached cached \<longleftrightarrow> cached = None \<or> cached = Some []"


text \<open>The same for the free-translation client, whose lookup depends on the clock.\<close>

definition short_uncached_free ::
  "string \<Rightarrow> string \<Rightarrow> int \<Rightarrow> TranslationCache \<Rightarrow> string \<Rightarrow> bool" where
  "short_uncached_free targetLang sourceLang now c text \<longleftrightarrow>
     normalizeText text \<noteq> [] \<and> length (normalizeText text) \<le> MAX_TEXT_LENGTH \<and>
     uncached (snd (cache_get now (generateCacheKey sourceLang targetLang (normalizeText text)) c))"


section \<open>Example inputs\<close>

text \<open>
  The state of the free-translation client at start: \<^verbatim>\<open>new Semaphore(MAX_CONCURRENT_REQUESTS)\<close>
  and \<^verbatim>\<open>new TranslationCache(MAX_CACHE_SIZE, CACHE_TTL)\<close>.
\<close>

definition idle :: "string net" where
  "idle = \<lparr>semaphore = new_Semaphore MAX_CONCURRENT_REQUESTS, clock = 0, trace = []\<rparr>"


definition hola :: "string params" where
  "hola = \<lparr>p_source = ''es'', p_target = ''en'', p_q = ''Hola''\<rparr>"

text \<open>Failures: a response with status 503, one with status 429, and no response at all.\<close>

definition e503 :: failure where
  "e503 = AxiosError (Some ''ERR_BAD_RESPONSE'') (Some 503) ''Request failed with status code 503''"



text \<open>The response of the free endpoint for \<open>Hola\<close>.\<close>

definition hello :: json where
  "hello = JArr [JArr [JArr [JStr ''Hello'', JStr ''Hola'', JNull, JNull, JNum 10]], JNull, JStr ''es'']"

text \<open>
  Networks: every request fails with status 503; the first request fails with the given
  failure and the later ones succeed; every request succeeds.
\<close>

definition unavailable :: "json upstream" where
  "unavailable = \<lparr>respond = (\<lambda>n. Reject e503), latency = (\<lambda>n. 120), lateness = (\<lambda>n. 7)\<rparr>"

definition fails_once :: "failure \<Rightarrow> json upstream" where
  "fails_once e =
     \<lparr>respond = (\<lambda>n. if n = 0 then Reject e else Resolve hello),
      latency = (\<lambda>n. 120), lateness = (\<lambda>n. 7)\<rparr>"








text \<open>An abort signal that has fired, as the argument \<open>options\<close>.\<close>

definition aborted_signal :: "options option" where
  "aborted_signal = Some \<lparr>opt_signal = Some (AbortSignal True)\<rparr>"

section \<open>Concurrent calls of \<open>callTranslationAPI\<close> through the limiter\<close>

text \<open>
  Several calls \<^verbatim>\<open>callTranslationAPI(params)\<close> (with \<open>attempt = 0\<close>) share the one
  semaphore of the module. JavaScript runs one of them at a time, each up to its next
  \<^verbatim>\<open>await\<close> that suspends; which call goes on next is decided by the arrival of responses
  and by the timers. A call is in one of these phases:

  \<^item> \<open>Unstarted\<close>: it has not been invoked yet;
  \<^item> \<open>Queued a\<close>: attempt \<open>a\<close> is suspended in \<^verbatim>\<open>await semaphore.acquire()\<close>, its
    callback is in \<open>tasks\<close>;
  \<^item> \<open>InFlight a\<close>: attempt \<open>a\<close> holds a permit and its request has been sent
    (\<^verbatim>\<open>await axios.get(...)\<close>);
  \<^item> \<open>Sleeping a\<close>: the request of attempt \<open>a\<close> has failed with a retryable failure and
    the call, still holding the permit, waits for the timer of the backoff;
  \<^item> \<open>Finished r\<close>: the promise of the call is settled, it has returned or thrown.

  The callers named in \<open>tasks\<close> are the indices of the calls. \<open>requests\<close> records
  every request sent, as the pair of the call and its attempt number.
\<close>

datatype 'r phase = Unstarted | Queued nat | InFlight nat | Sleeping nat | Finished "'r settled"

record 'r pool =
  permits :: Semaphore
  phases :: "'r phase list"
  requests :: "(nat \<times> nat) list"

text \<open>\<open>m\<close> calls that have not been invoked yet, and \<^verbatim>\<open>new Semaphore(n)\<close>.\<close>

definition new_pool :: "int \<Rightarrow> nat \<Rightarrow> 'r pool" where
  "new_pool n m = \<lparr>permits = new_Semaphore n, phases = replicate m Unstarted, requests = []\<rparr>"

text \<open>Call \<open>j\<close> has its permit and sends the request of attempt \<open>a\<close>.\<close>

definition go :: "nat \<Rightarrow> nat \<Rightarrow> 'r pool \<Rightarrow> 'r pool" where
  "go j a s = s\<lparr>phases := (phases s)[j := InFlight a], requests := requests s @ [(j, a)]\<rparr>"

text \<open>
  The callback that \<open>release\<close> has called resumes the call that was suspended in
  \<open>acquire\<close>, which goes on to send its request.
\<close>

definition resume :: "nat option \<Rightarrow> 'r pool \<Rightarrow> 'r pool" where
  "resume woken s =
     (case woken of
        None \<Rightarrow> s
      | Some j \<Rightarrow>
          if j < length (phases s)
          then (case phases s ! j of Queued a \<Rightarrow> go j a s | _ \<Rightarrow> s)
          else s)"

text \<open>
  \<^verbatim>\<open>callTranslationAPI(params, a)\<close> is invoked for call \<open>j\<close>: \<^verbatim>\<open>await semaphore.acquire()\<close>
  takes a free permit, and the call goes on to its request, or queues the callback.
\<close>

definition invoke :: "nat \<Rightarrow> nat \<Rightarrow> 'r pool \<Rightarrow> 'r pool" where
  "invoke j a s =
     (case acquire j (permits s) of
        (sem, True) \<Rightarrow> go j a (s\<lparr>permits := sem\<rparr>)
      | (sem, False) \<Rightarrow> s\<lparr>permits := sem, phases := (phases s)[j := Queued a]\<rparr>)"

text \<open>\<^verbatim>\<open>finally { semaphore.release(); }\<close>\<close>

definition leave :: "'r pool \<Rightarrow> 'r pool" where
  "leave s = (case release (permits s) of (sem, woken) \<Rightarrow> resume woken (s\<lparr>permits := sem\<rparr>))"

text \<open>An attempt of call \<open>j\<close> returns or throws: the \<^verbatim>\<open>finally\<close> block runs and the call is over.\<close>

definition settle :: "nat \<Rightarrow> 'r settled \<Rightarrow> 'r pool \<Rightarrow> 'r pool" where
  "settle j r s = leave (s\<lparr>phases := (phases s)[j := Finished r]\<rparr>)"

text \<open>
  Call \<open>j\<close> goes on to its next suspension. \<open>answer j a\<close> is the outcome of the request of
  attempt \<open>a\<close> of call \<open>j\<close>.

  \<^item> A call that has not been invoked is invoked, with \<open>attempt = 0\<close>.
  \<^item> For a call whose request is in flight the outcome arrives: a response is returned; a
    failure is thrown when \<^verbatim>\<open>attempt >= RETRIES\<close> or when it is not retryable; otherwise the
    call starts to sleep.
  \<^item> For a sleeping call the timer fires: \<^verbatim>\<open>return callTranslationAPI(params, attempt + 1)\<close>
    invokes the retry, which runs up to its \<^verbatim>\<open>await semaphore.acquire()\<close>, and then the
    \<^verbatim>\<open>finally\<close> block of the current attempt releases its permit.
  \<^item> A call that is queued goes on only when a \<open>release\<close> calls its callback, and a call
    that is over does nothing.
\<close>

definition advance :: "config \<Rightarrow> (nat \<Rightarrow> nat \<Rightarrow> 'r outcome) \<Rightarrow> nat \<Rightarrow> 'r pool \<Rightarrow> 'r pool" where
  "advance cfg answer j s =
     (if j < length (phases s)
      then (case phases s ! j of
              Unstarted \<Rightarrow> invoke j 0 s
            | InFlight a \<Rightarrow>
                (case answer j a of
                   Resolve response \<Rightarrow> settle j (Returned response) s
                 | Reject error \<Rightarrow>
                     if a \<ge> cfg_retries cfg then settle j (Thrown error) s
                     else if cfg_retryable cfg error
                     then s\<lparr>phases := (phases s)[j := Sleeping a]\<rparr>
                     else settle j (Thrown error) s)
            | Sleeping a \<Rightarrow> leave (invoke j (a + 1) s)
            | Queued a \<Rightarrow> s
            | Finished r \<Rightarrow> s)
      else s)"

text \<open>The calls that can go on: all but the queued ones and those that are over.\<close>

fun can_step :: "'r phase \<Rightarrow> bool" where
  "can_step Unstarted = True"
| "can_step (InFlight a) = True"
| "can_step (Sleeping a) = True"
| "can_step (Queued a) = False"
| "can_step (Finished r) = False"

definition enabled :: "'r pool \<Rightarrow> nat list" where
  "enabled s = filter (\<lambda>j. can_step (phases s ! j)) [0..<length (phases s)]"

text \<open>
  A run of the calls: as long as some call can go on, one of them does. \<open>pick\<close> stands for
  the order in which responses arrive and timers fire; it is arbitrary, and when it names a call
  that cannot go on, the first one that can is taken. The run stops when no call can go on or
  when the fuel is used up.
\<close>

fun run_all ::
  "config \<Rightarrow> (nat \<Rightarrow> nat \<Rightarrow> 'r outcome) \<Rightarrow> ('r pool \<Rightarrow> nat) \<Rightarrow> nat \<Rightarrow> 'r pool \<Rightarrow> 'r pool" where
  "run_all cfg answer pick 0 s = s"
| "run_all cfg answer pick (Suc fuel) s =
     (case enabled s of
        [] \<Rightarrow> s
      | j # js \<Rightarrow>
          run_all cfg answer pick fuel
            (advance cfg answer (if pick s \<in> set (j # js) then pick s else j) s))"

text \<open>The attempt numbers of the requests that call \<open>j\<close> has sent, in their order.\<close>

definition attempts_by :: "nat \<Rightarrow> (nat \<times> nat) list \<Rightarrow> nat list" where
  "attempts_by j made = map snd (filter (\<lambda>r. fst r = j) made)"

subsection \<open>Notions used to reason about the runs\<close>

text \<open>The permits that a call holds, and whether its callback is in the queue.\<close>

fun holds :: "'r phase \<Rightarrow> int" where
  "holds (InFlight a) = 1"
| "holds (Sleeping a) = 1"
| "holds p = 0"

fun waiting :: "'r phase \<Rightarrow> bool" where
  "waiting (Queued a) = True"
| "waiting p = False"

definition held :: "'r phase list \<Rightarrow> int" where
  "held ps = sum_list (map holds ps)"

text \<open>
  The invariant of the runs from \<open>new_pool n m\<close>: the free permits and the permits held add
  up to \<open>n\<close>, the queue holds exactly the queued calls, each once, and calls are queued only
  while no permit is free.
\<close>

definition sound :: "int \<Rightarrow> 'r pool \<Rightarrow> bool" where
  "sound n s \<longleftrightarrow>
     0 \<le> count (permits s) \<and> count (permits s) + held (phases s) = n \<and>
     distinct (tasks (permits s)) \<and>
     (\<forall>j. j \<in> set (tasks (permits s)) \<longleftrightarrow> j < length (phases s) \<and> waiting (phases s ! j)) \<and>
     (tasks (permits s) \<noteq> [] \<longrightarrow> count (permits s) = 0)"

text \<open>
  A bound on the number of steps that a call can still make, given \<open>RETRIES\<close>; the sum over
  all calls decreases with every step of a run.
\<close>

fun effort :: "nat \<Rightarrow> 'r phase \<Rightarrow> nat" where
  "effort R Unstarted = 2 * R + 2"
| "effort R (Queued a) = 2 * (R - a) + 1"
| "effort R (InFlight a) = 2 * (R - a) + 1"
| "effort R (Sleeping a) = 2 * (R - (a + 1)) + 2"
| "effort R (Finished r) = 0"

definition work :: "nat \<Rightarrow> 'r phase list \<Rightarrow> nat" where
  "work R ps = sum_list (map (effort R) ps)"

text \<open>How an attempt whose request has been answered ends, if it does not go on to a retry.\<close>

definition verdict :: "config \<Rightarrow> 'r outcome \<Rightarrow> nat \<Rightarrow> 'r settled option" where
  "verdict cfg answered a =
     (case answered of
        Resolve response \<Rightarrow> Some (Returned response)
      | Reject error \<Rightarrow>
          if cfg_retries cfg \<le> a \<or> \<not> cfg_retryable cfg error then Some (Thrown error) else None)"

text \<open>The call that a run lets go on next.\<close>

definition chosen :: "('r pool \<Rightarrow> nat) \<Rightarrow> 'r pool \<Rightarrow> nat" where
  "chosen pick s = (if pick s \<in> set (enabled s) then pick s else hd (enabled s))"

text \<open>
  The requests that a call has sent in each phase when all its requests fail with retryable
  failures: the attempts \<open>0, 1, ...\<close> up to the current one, and all of \<open>0, ..., R\<close> when
  it is over, having thrown the failure of attempt \<open>R\<close>.
\<close>

definition on_course :: "nat \<Rightarrow> (nat \<Rightarrow> 'r outcome) \<Rightarrow> 'r phase \<Rightarrow> nat list \<Rightarrow> bool" where
  "on_course R answers p made \<longleftrightarrow>
     (case p of
        Unstarted \<Rightarrow> made = []
      | Queued a \<Rightarrow> made = [0..<a] \<and> a \<le> R
      | InFlight a \<Rightarrow> made = [0..<a + 1] \<and> a \<le> R
      | Sleeping a \<Rightarrow> made = [0..<a + 1] \<and> a < R
      | Finished r \<Rightarrow> made = [0..<R + 1] \<and> (\<exists>e. answers R = Reject e \<and> r = Thrown e))"

subsection \<open>Example\<close>

text \<open>
  Every request fails with status 503, and the calls take turns: the call whose index is the
  number of requests sent so far, modulo 4, goes on next if it can.
\<close>

definition all_unavailable :: "nat \<Rightarrow> nat \<Rightarrow> json outcome" where
  "all_unavailable j a = Reject e503"

definition taking_turns :: "json pool \<Rightarrow> nat" where
  "taking_turns s = length (requests s) mod 4"

section \<open>Properties of the chunkers\<close>

lemma nonspace_append [simp]: "nonspace (xs @ ys) = nonspace xs @ nonspace ys"
  by (simp add: nonspace_def)

lemma nonspace_Nil [simp]: "nonspace [] = []"
  by (simp add: nonspace_def)

lemma nonspace_blank [simp]: "nonspace '' '' = []"
  by (simp add: nonspace_def is_space_def)

lemma nonspace_dropWhile [simp]: "nonspace (dropWhile is_space s) = nonspace s"
  by (induction s) (auto simp: nonspace_def)

lemma nonspace_rev: "nonspace (rev s) = rev (nonspace s)"
  by (simp add: nonspace_def rev_filter)

lemma nonspace_trim [simp]: "nonspace (trim s) = nonspace s"
  by (simp add: trim_def nonspace_rev)

lemma nonspace_mark_sentences [simp]: "nonspace (mark_sentences s) = nonspace s"
proof (induction s rule: mark_sentences.induct)
  case 1
  show ?case by simp
next
  case (2 c cs)
  have lf: "is_space (CHR 0x0A)" by (simp add: is_space_def)
  show ?case
  proof (cases "is_terminator c \<and> cs \<noteq> [] \<and> is_space (hd cs)")
    case True
    with 2 have "nonspace (mark_sentences (dropWhile is_space cs)) = nonspace cs" by simp
    with True lf show ?thesis by (simp add: nonspace_def)
  next
    case False
    with 2 have "nonspace (mark_sentences cs) = nonspace cs" by simp
    with False show ?thesis by (auto simp add: nonspace_def)
  qed
qed

lemma split_on_not_Nil [simp]: "split_on sep s \<noteq> []"
  by (induction s) (auto split: list.splits)

lemma concat_split_on: "concat (split_on sep s) = filter (\<lambda>c. c \<noteq> sep) s"
  by (induction s) (auto split: list.splits)

lemma nonspace_concat: "nonspace (concat xs) = concat (map nonspace xs)"
  by (induction xs) simp_all

lemma nonspace_split_on:
  assumes "is_space sep"
  shows "concat (map nonspace (split_on sep s)) = nonspace s"
proof -
  have "concat (map nonspace (split_on sep s)) = nonspace (filter (\<lambda>c. c \<noteq> sep) s)"
    by (simp add: nonspace_concat [symmetric] concat_split_on)
  also have "\<dots> = nonspace s"
    using assms by (induction s) (auto simp: nonspace_def)
  finally show ?thesis .
qed

lemma nonspace_join_space: "nonspace (join_space xs) = concat (map nonspace xs)"
  by (induction xs rule: join_space.induct) (simp_all add: nonspace_def is_space_def)

lemma content_flush [simp]: "content (flush chunks cur, rest) = content (chunks, cur) @ nonspace rest"
  by (simp add: content_def flush_def)

lemma content_words_loop:
  "content (words_loop m ws st) = content st @ concat (map nonspace ws)"
proof (induction m ws st rule: words_loop.induct)
  case (1 m st)
  show ?case by simp
next
  case (2 m word ws chunks cur)
  then show ?case by (simp add: content_def flush_def)
qed

lemma content_sentences_loop:
  "content (sentences_loop m ss st) =
   content st @ concat (map (\<lambda>s. concat (map nonspace (split_on CHR '' '' s))) ss)"
proof (induction m ss st rule: sentences_loop.induct)
  case (1 m st)
  show ?case by simp
next
  case (2 m s ss chunks cur)
  have sp: "is_space CHR '' ''" by (simp add: is_space_def)
  have w: "concat (map nonspace (split_on CHR '' '' s)) = nonspace s"
    by (rule nonspace_split_on [OF sp])
  from 2 show ?case
    by (simp add: content_words_loop w) (simp add: content_def flush_def)
qed

lemma nonspace_splitText: "nonspace (join_space (splitText text m)) = nonspace text"
proof (cases "length text \<le> m")
  case True
  then show ?thesis by (simp add: splitText_def)
next
  case False
  obtain chunks cur where st:
    "sentences_loop m (sentences_of text) ([], []) = (chunks, cur)"
    by (cases "sentences_loop m (sentences_of text) ([], [])")
  have sp: "is_space CHR '' ''" and lf: "is_space (CHR 0x0A)" by (simp_all add: is_space_def)
  have "concat (map nonspace (flush chunks cur)) = content (chunks, cur)"
    by (simp add: content_def flush_def)
  also have "\<dots> = concat (map nonspace (sentences_of text))"
    using content_sentences_loop [of m "sentences_of text" "([], [])"]
    by (simp add: st content_def nonspace_split_on [OF sp])
  also have "\<dots> = nonspace text"
    by (simp add: sentences_of_def nonspace_split_on [OF lf])
  finally show ?thesis using False by (simp add: splitText_def st nonspace_join_space)
qed

lemma length_trim_le: "length (trim s) \<le> length s"
proof -
  have "length (trim s) \<le> length (dropWhile is_space s)"
    unfolding trim_def using length_dropWhile_le [of is_space "rev (dropWhile is_space s)"] by simp
  also have "\<dots> \<le> length s" by (rule length_dropWhile_le)
  finally show ?thesis .
qed

lemma length_trim_trailing:
  assumes "s \<noteq> []" and "is_space (last s)"
  shows "length (trim s) < length s"
proof (cases "dropWhile is_space s = []")
  case True
  have "trim s = []" by (simp only: trim_def True rev.simps dropWhile.simps)
  with assms show ?thesis by simp
next
  case False
  let ?d = "dropWhile is_space s"
  have "last ?d = last s"
    using False by (metis dropWhile_eq_drop last_drop drop_eq_Nil not_le)
  with assms False have hd: "is_space (hd (rev ?d))" and ne: "rev ?d \<noteq> []"
    by (simp_all add: hd_rev)
  have "length (dropWhile is_space (rev ?d)) < length (rev ?d)"
    using hd ne by (cases "rev ?d") (auto simp: less_Suc_eq_le length_dropWhile_le)
  then have "length (trim s) < length ?d" by (simp add: trim_def)
  also have "\<dots> \<le> length s" by (rule length_dropWhile_le)
  finally show ?thesis .
qed

lemma within_flush:
  assumes "within m (chunks, cur)"
  shows "\<forall>c \<in> set (flush chunks cur). length c \<le> m"
proof (cases "cur = []")
  case True
  with assms show ?thesis by (simp add: within_def flush_def)
next
  case False
  with assms have "is_space (last cur)" and "length cur \<le> m + 1" by (simp_all add: within_def)
  with False have "length (trim cur) \<le> m" using length_trim_trailing [of cur] by simp
  with assms False show ?thesis by (simp add: within_def flush_def)
qed

lemma within_fresh:
  assumes "within m (chunks, cur)" and "length w \<le> m"
  shows "within m (flush chunks cur, w @ '' '')"
  using within_flush [OF assms(1)] assms(2) by (simp add: within_def is_space_def)

lemma within_extend:
  assumes "within m (chunks, cur)" and "length cur + length w \<le> m"
  shows "within m (chunks, cur @ w @ '' '')"
  using assms by (simp add: within_def is_space_def)

lemma within_words_loop:
  assumes "within m st" and "\<forall>w \<in> set ws. length w \<le> m"
  shows "within m (words_loop m ws st)"
  using assms
proof (induction m ws st rule: words_loop.induct)
  case (1 m st)
  then show ?case by simp
next
  case (2 m word ws chunks cur)
  show ?case
  proof (cases "length cur + length word + 1 \<le> m")
    case True
    then have "within m (chunks, cur @ word @ '' '')"
      using within_extend [OF "2.prems"(1), of word] by simp
    with 2 True show ?thesis by simp
  next
    case False
    have "within m (flush chunks cur, word @ '' '')"
      using within_fresh [OF "2.prems"(1), of word] "2.prems"(2) by simp
    with 2 False show ?thesis by simp
  qed
qed

lemma within_sentences_loop:
  assumes "within m st"
    and "\<forall>s \<in> set ss. \<forall>w \<in> set (split_on CHR '' '' s). length w \<le> m"
  shows "within m (sentences_loop m ss st)"
  using assms
proof (induction m ss st rule: sentences_loop.induct)
  case (1 m st)
  then show ?case by simp
next
  case (2 m s ss chunks cur)
  from "2.prems"(2) have rest: "\<forall>s \<in> set ss. \<forall>w \<in> set (split_on CHR '' '' s). length w \<le> m"
    and here: "\<forall>w \<in> set (split_on CHR '' '' s). length w \<le> m" by simp_all
  show ?case
  proof (cases "length cur + length s \<le> m")
    case True
    have "within m (chunks, cur @ s @ '' '')"
      by (rule within_extend [OF "2.prems"(1) True])
    with 2 True rest show ?thesis by simp
  next
    case False
    show ?thesis
    proof (cases "length s > m")
      case True
      have "within m (flush chunks cur, [])"
        using within_flush [OF "2.prems"(1)] by (simp add: within_def)
      then have "within m (words_loop m (split_on CHR '' '' s) (flush chunks cur, []))"
        using here by (rule within_words_loop)
      with 2 False True rest show ?thesis by simp
    next
      case short: False
      then have "within m (flush chunks cur, s @ '' '')"
        using within_fresh [OF "2.prems"(1), of s] by simp
      with 2 False short rest show ?thesis by simp
    qed
  qed
qed

lemma splitText_bounded:
  assumes "words_fit text m"
  shows "\<forall>c \<in> set (splitText text m). length c \<le> m"
proof (cases "length text \<le> m")
  case True
  then show ?thesis by (simp add: splitText_def)
next
  case False
  obtain chunks cur where st:
    "sentences_loop m (sentences_of text) ([], []) = (chunks, cur)"
    by (cases "sentences_loop m (sentences_of text) ([], [])")
  have "within m ([], [])" by (simp add: within_def)
  then have "within m (chunks, cur)"
    using within_sentences_loop [of m "([], [])" "sentences_of text"] assms st
    by (simp add: words_fit_def)
  then show ?thesis using False by (simp add: splitText_def st within_flush)
qed

lemma lastIndexOf_le: "lastIndexOf ch text i \<le> int i"
  by (induction i) auto

lemma spaceIndex_bounds:
  assumes "0 < m"
  shows "cur < spaceIndex text m cur \<and> spaceIndex text m cur \<le> cur + m"
  using assms lastIndexOf_le [of "CHR '' ''" "text" "cur + m"]
  by (auto simp: spaceIndex_def)

lemma substring_take_drop:
  assumes "a \<le> b" and "b \<le> length text"
  shows "substring text a b = take (b - a) (drop a text)"
  using assms by (simp add: substring_def Let_def min_def max_def)

lemma chunk_loop_step:
  assumes "cur < length text" and "\<not> length text \<le> cur + m"
  shows "chunk_loop text m cur chunks =
         chunk_loop text m (spaceIndex text m cur)
           (chunks @ [substring text cur (spaceIndex text m cur)])"
  using assms by (subst chunk_loop.simps) (simp add: spaceIndex_def)

lemma chunk_loop_last:
  assumes "cur < length text" and "length text \<le> cur + m"
  shows "chunk_loop text m cur chunks = Some (chunks @ [drop cur text])"
  using assms by (subst chunk_loop.simps) simp

lemma chunk_loop_done:
  assumes "\<not> cur < length text"
  shows "chunk_loop text m cur chunks = Some chunks"
  using assms by (subst chunk_loop.simps) simp

lemma chunk_loop_total:
  assumes "0 < m"
  shows "\<exists>cs. chunk_loop text m cur chunks = Some (chunks @ cs) \<and>
              (\<forall>c \<in> set cs. length c \<le> m) \<and> concat cs = drop cur text"
proof (induction "length text - cur" arbitrary: cur chunks rule: less_induct)
  case less
  show ?case
  proof (cases "cur < length text")
    case False
    then show ?thesis by (simp add: chunk_loop_done)
  next
    case True
    show ?thesis
    proof (cases "length text \<le> cur + m")
      case True
      with \<open>cur < length text\<close> show ?thesis by (simp add: chunk_loop_last)
    next
      case False
      let ?n = "spaceIndex text m cur"
      let ?piece = "substring text cur ?n"
      from spaceIndex_bounds [OF assms, of cur "text"] have lo: "cur < ?n" and hi: "?n \<le> cur + m"
        by simp_all
      from hi False have inside: "?n \<le> length text" by simp
      have piece: "?piece = take (?n - cur) (drop cur text)"
        using lo inside by (simp add: substring_take_drop)
      have "length text - ?n < length text - cur" using lo True by simp
      from less [OF this, of "chunks @ [?piece]"] obtain cs where
        run: "chunk_loop text m ?n (chunks @ [?piece]) = Some ((chunks @ [?piece]) @ cs)"
        and small: "\<forall>c \<in> set cs. length c \<le> m" and all: "concat cs = drop ?n text"
        by blast
      have "chunk_loop text m cur chunks = Some (chunks @ (?piece # cs))"
        using chunk_loop_step [OF True False, of chunks] run by simp
      moreover have "length ?piece \<le> m" using piece hi by simp
      moreover have "concat (?piece # cs) = drop cur text"
      proof -
        have "drop ?n text = drop (?n - cur) (drop cur text)" using lo by simp
        with piece all show ?thesis by (simp del: drop_drop)
      qed
      ultimately show ?thesis using small by (intro exI [of _ "?piece # cs"]) simp
    qed
  qed
qed

lemma splitTextIntoChunks_bounded:
  assumes "0 < m"
  shows "\<exists>cs. splitTextIntoChunks text m = Some cs \<and>
              (\<forall>c \<in> set cs. length c \<le> m) \<and> concat cs = text"
  using chunk_loop_total [OF assms, of "text" 0 "[]"] by (simp add: splitTextIntoChunks_def)

lemma mark_sentences_plain:
  "\<forall>c \<in> set s. \<not> is_space c \<Longrightarrow> mark_sentences s = s"
proof (induction s)
  case Nil
  show ?case by simp
next
  case (Cons c cs)
  then have "cs \<noteq> [] \<Longrightarrow> \<not> is_space (hd cs)" by (cases cs) auto
  with Cons show ?case by auto
qed

lemma split_on_plain: "sep \<notin> set s \<Longrightarrow> split_on sep s = [s]"
  by (induction s) auto

lemma trim_word:
  assumes "\<forall>c \<in> set s. \<not> is_space c"
  shows "trim (s @ '' '') = s"
proof (cases s)
  case Nil
  then show ?thesis by (simp add: trim_def is_space_def)
next
  case (Cons c cs)
  with assms have c: "\<not> is_space c" by simp
  have a: "dropWhile is_space (s @ '' '') = s @ '' ''"
    unfolding Cons using c by simp
  have "rev s \<noteq> []" using Cons by simp
  moreover have "hd (rev s) \<in> set s" using Cons by (metis calculation hd_in_set set_rev)
  ultimately have b: "dropWhile is_space (rev s) = rev s"
    using assms by (cases "rev s") auto
  have sp: "is_space CHR '' ''" by (simp add: is_space_def)
  show ?thesis unfolding trim_def a using b sp by simp
qed

text \<open>
  \<open>splitText\<close> returns a text that is longer than the limit and holds no whitespace as it
  is, in one chunk.
\<close>

lemma splitText_unbroken_word:
  assumes "\<forall>c \<in> set word. \<not> is_space c" and "maxLength < length word"
  shows "splitText word maxLength = [word]"
proof -
  have lf: "CHR 0x0A \<notin> set word" and sp: "CHR '' '' \<notin> set word"
    using assms(1) by (auto simp: is_space_def)
  have s: "sentences_of word = [word]"
    unfolding sentences_of_def mark_sentences_plain [OF assms(1)] by (rule split_on_plain [OF lf])
  have w: "words_loop maxLength [word] ([], []) = ([], word @ '' '')"
    using assms(2) by (simp add: flush_def)
  have "sentences_loop maxLength [word] ([], []) = ([], word @ '' '')"
    using assms(2) by (simp add: split_on_plain [OF sp] w flush_def)
  then have "splitText word maxLength = flush [] (word @ '' '')"
    using assms(2) by (simp add: splitText_def s)
  also have "\<dots> = [word]" by (simp add: flush_def trim_word [OF assms(1)])
  finally show ?thesis .
qed

text \<open>
  Where the bound on the length of the chunks does hold. For a positive limit,
  \<open>splitTextIntoChunks\<close> returns, for every text, consecutive pieces of the text (their
  concatenation is the text), each within the limit: it cuts at the last space at or before the
  limit and makes a hard cut where there is none. The chunks of \<open>splitText\<close> are within
  the limit whenever no space-separated word of a sentence of the text is longer than the limit.
\<close>

lemma chunks_within_limit:
  assumes "0 < maxLength"
  shows "(\<exists>chunks. splitTextIntoChunks text maxLength = Some chunks \<and>
            (\<forall>c \<in> set chunks. length c \<le> maxLength) \<and> concat chunks = text) \<and>
         (words_fit text maxLength \<longrightarrow> (\<forall>c \<in> set (splitText text maxLength). length c \<le> maxLength))"
  using splitTextIntoChunks_bounded [OF assms, of "text"] splitText_bounded [of "text" maxLength]
  by blast

text \<open>
  C7. For a text whose normal form is longer than the limit, \<open>splitText\<close> returns chunks
  that, joined with single spaces, hold exactly the non-whitespace characters of the normal form,
  in the same order; a text that is not longer than the limit comes back as the only chunk,
  unchanged.
\<close>

theorem splitText_keeps_content:
  "(length (normalizeText t) > maxLength \<longrightarrow>
      nonspace (join_space (splitText (normalizeText t) maxLength)) = nonspace (normalizeText t)) \<and>
   (length x \<le> maxLength \<longrightarrow> splitText x maxLength = [x])"
proof (intro conjI impI)
  show "nonspace (join_space (splitText (normalizeText t) maxLength)) = nonspace (normalizeText t)"
    by (rule nonspace_splitText)
next
  assume "length x \<le> maxLength"
  then show "splitText x maxLength = [x]" by (simp add: splitText_def)
qed

theorem splitText_keeps_content_witness:
  "length (normalizeText ''  Hi there.   How are you?  '') > 12 \<and>
   nonspace (join_space (splitText (normalizeText ''  Hi there.   How are you?  '') 12)) =
     nonspace (normalizeText ''  Hi there.   How are you?  '') \<and>
   length ''Hola'' \<le> 12 \<and> splitText ''Hola'' 12 = [''Hola'']"
proof -
  have long: "length (normalizeText ''  Hi there.   How are you?  '') > 12"
    by code_simp
  show ?thesis
    using long splitText_keeps_content [of 12 "''  Hi there.   How are you?  ''" "''Hola''"]
    by simp
qed

text \<open>
  C2. The code breaks the bound on the length of the chunks. \<open>splitText\<close> splits at the
  ends of sentences and, inside a sentence that is longer than the limit, at spaces only; it has
  no code for a hard cut, so a word that is longer than the limit comes back whole, as one chunk
  that is longer than the limit. The comments of the code say that \<open>splitText\<close> divides a
  long text into smaller fragments to avoid the limits of the API, and that
  \<open>MAX_TEXT_LENGTH\<close> is the maximal length of each request; the chunker of the batching
  client, \<open>splitTextIntoChunks\<close>, does make the hard cut. With the limit 3 the word
  \<open>abcdefgh\<close> is returned whole, and with the limit \<open>MAX_TEXT_LENGTH\<close> of the client
  so is a word of 5001 characters.
\<close>

theorem splitText_overlong_word:
  "splitText ''abcdefgh'' 3 = [''abcdefgh''] \<and> \<not> length ''abcdefgh'' \<le> 3 \<and>
   splitText (replicate 5001 CHR ''a'') MAX_TEXT_LENGTH = [replicate 5001 CHR ''a''] \<and>
   \<not> length (replicate 5001 CHR ''a'') \<le> MAX_TEXT_LENGTH"
proof -
  have a: "splitText ''abcdefgh'' 3 = [''abcdefgh''] \<and> \<not> length ''abcdefgh'' \<le> 3" by code_simp
  have n: "\<forall>c \<in> set (replicate 5001 CHR ''a''). \<not> is_space c"
    by (simp only: set_replicate_conv_if) (simp add: is_space_def)
  have l: "MAX_TEXT_LENGTH < length (replicate 5001 CHR ''a'')"
    by (simp only: length_replicate MAX_TEXT_LENGTH_def)
  from splitText_unbroken_word [OF n l] a l show ?thesis by simp
qed

section \<open>Properties of the result cache\<close>

lemma length_delete_less:
  "k \<in> fst ` set al \<Longrightarrow> length (AList.delete k al) < length al"
proof (induction al)
  case Nil
  then show ?case by simp
next
  case (Cons p al)
  show ?case
  proof (cases "fst p = k")
    case True
    then show ?thesis
      using AList.length_delete_le [of k al] by (cases p) (simp add: less_Suc_eq_le)
  next
    case False
    with Cons.prems have "k \<in> fst ` set al" by auto
    with Cons.IH False show ?thesis by (cases p) simp
  qed
qed

lemma length_update_le: "length (AList.update k v al) \<le> Suc (length al)"
  by (induction al) auto

lemma update_new_key: "k \<notin> fst ` set al \<Longrightarrow> AList.update k v al = al @ [(k, v)]"
  by (induction al) auto

lemma older_key:
  "fst (foldl older st xs) = fst st \<or> (\<exists>k \<in> fst ` set xs. fst (foldl older st xs) = Some k)"
proof (induction xs arbitrary: st)
  case Nil
  show ?case by simp
next
  case (Cons x xs)
  have "fst (older st x) = fst st \<or> fst (older st x) = Some (fst x)"
    by (auto simp: older_def split: prod.splits option.splits)
  with Cons [of "older st x"] show ?case by auto
qed

lemma older_first: "snd st = None \<Longrightarrow> older st (k, e) = (Some k, Some (entry_timestamp e))"
  by (cases st) (simp add: older_def)

lemma findOldestEntry_key:
  assumes "cache c \<noteq> []"
  shows "\<exists>k \<in> fst ` set (cache c). findOldestEntry c = Some k"
proof -
  from assms obtain k e xs where c: "cache c = (k, e) # xs" by (cases "cache c") auto
  have "findOldestEntry c = fst (foldl older (Some k, Some (entry_timestamp e)) xs)"
    by (simp add: findOldestEntry_def c older_first)
  with older_key [of "(Some k, Some (entry_timestamp e))" xs] show ?thesis
    by (auto simp: c)
qed

lemma length_cleanExpired: "length (cache (cleanExpired now c)) \<le> length (cache c)"
  by (simp add: cleanExpired_def)

lemma keys_cleanExpired: "fst ` set (cache (cleanExpired now c)) \<subseteq> fst ` set (cache c)"
  by (auto simp: cleanExpired_def)

lemma maxSize_cleanExpired [simp]: "maxSize (cleanExpired now c) = maxSize c"
  by (simp add: cleanExpired_def)

lemma maxSize_evictOldest [simp]: "maxSize (evictOldest c) = maxSize c"
  by (simp add: evictOldest_def split: option.splits)

lemma maxSize_cache_set [simp]: "maxSize (cache_set now key v c) = maxSize c"
  by (simp add: cache_set_def Let_def)

lemma evictOldest_room:
  assumes "0 < maxSize c" and "length (cache c) \<le> maxSize c" and "[] \<notin> fst ` set (cache c)"
  shows "length (cache (evictOldest c)) < maxSize c"
proof (cases "length (cache c) \<ge> maxSize c")
  case False
  then show ?thesis by (simp add: evictOldest_def)
next
  case True
  with assms(1) have "cache c \<noteq> []" by auto
  from findOldestEntry_key [OF this] obtain k where
    k: "k \<in> fst ` set (cache c)" and old: "findOldestEntry c = Some k" by blast
  from k assms(3) have "k \<noteq> []" by metis
  with True old have "cache (evictOldest c) = AList.delete k (cache c)"
    by (simp add: evictOldest_def)
  with length_delete_less [OF k] assms(2) show ?thesis by simp
qed

lemma cache_set_size:
  assumes "0 < maxSize c" and "length (cache c) \<le> maxSize c" and "[] \<notin> fst ` set (cache c)"
  shows "length (cache (cache_set now key v c)) \<le> maxSize c"
proof -
  let ?c = "cleanExpired now c"
  have "length (cache ?c) \<le> maxSize ?c"
    using assms(2) length_cleanExpired [of now c] by simp
  moreover have "[] \<notin> fst ` set (cache ?c)"
    using assms(3) keys_cleanExpired [of now c] by blast
  ultimately have "length (cache (evictOldest ?c)) < maxSize c"
    using evictOldest_room [of ?c] assms(1) by simp
  then show ?thesis
    using length_update_le [of key "\<lparr>entry_value = v, entry_timestamp = now\<rparr>" "cache (evictOldest ?c)"]
    by (simp add: cache_set_def Let_def)
qed

lemma cache_set_p6_size:
  assumes "0 < maxSize_p6 c" and "length (cache_p6 c) \<le> maxSize_p6 c"
  shows "length (cache_p6 (cache_set_p6 key v c)) \<le> maxSize_p6 c \<and>
         maxSize_p6 (cache_set_p6 key v c) = maxSize_p6 c"
proof (cases "length (cache_p6 c) \<ge> maxSize_p6 c")
  case False
  then show ?thesis
    using length_update_le [of key v "cache_p6 c"] by (simp add: cache_set_p6_def)
next
  case True
  with assms(1) obtain k x xs where c: "cache_p6 c = (k, x) # xs" by (cases "cache_p6 c") auto
  have "length (AList.delete k (cache_p6 c)) < length (cache_p6 c)"
    by (rule length_delete_less) (simp add: c)
  with assms(2) have "length (AList.delete k (cache_p6 c)) < maxSize_p6 c" by simp
  then show ?thesis
    using True length_update_le [of key v "AList.delete k (cache_p6 c)"]
    by (simp add: cache_set_p6_def c)
qed

lemma cleanExpired_fresh:
  assumes "\<forall>a \<in> set xs. now - fst a \<le> t"
  shows "cleanExpired now \<lparr>cache = map entry_of xs, maxSize = n, ttl = t\<rparr> =
         \<lparr>cache = map entry_of xs, maxSize = n, ttl = t\<rparr>"
proof -
  have "filter (\<lambda>(key, entry). \<not> now - entry_timestamp entry > t) (map entry_of xs) = map entry_of xs"
    using assms by (auto simp: filter_id_conv entry_of_def split: prod.splits)
  then show ?thesis by (simp add: cleanExpired_def)
qed

lemma keys_entry_of: "fst ` set (map entry_of xs) = set (keys_of xs)"
  by (auto simp: entry_of_def keys_of_def image_iff split: prod.splits) force+

lemma cache_set_append:
  assumes "\<forall>a \<in> set xs. now - fst a \<le> t" and "length xs < n" and "key \<notin> set (keys_of xs)"
  shows "cache_set now key v \<lparr>cache = map entry_of xs, maxSize = n, ttl = t\<rparr> =
         \<lparr>cache = map entry_of (xs @ [(now, key, v)]), maxSize = n, ttl = t\<rparr>"
proof -
  have "key \<notin> fst ` set (map entry_of xs)" using assms(3) by (metis keys_entry_of)
  then have "AList.update key \<lparr>entry_value = v, entry_timestamp = now\<rparr> (map entry_of xs) =
             map entry_of xs @ [(key, \<lparr>entry_value = v, entry_timestamp = now\<rparr>)]"
    by (rule update_new_key)
  then show ?thesis
    using assms(2)
    by (simp add: cache_set_def Let_def cleanExpired_fresh [OF assms(1)] evictOldest_def entry_of_def)
qed

lemma older_keeps_first:
  assumes "\<forall>a \<in> set xs. t0 \<le> fst a"
  shows "foldl older (Some k0, Some t0) (map entry_of xs) = (Some k0, Some t0)"
  using assms by (induction xs) (auto simp: older_def entry_of_def split: prod.splits)

lemma findOldestEntry_first:
  assumes "sorted (map fst (x # xs))"
  shows "findOldestEntry \<lparr>cache = map entry_of (x # xs), maxSize = n, ttl = t\<rparr> = Some (fst (snd x))"
proof -
  obtain t0 k0 v0 where x: "x = (t0, k0, v0)" by (cases x) auto
  from assms have "\<forall>a \<in> set xs. t0 \<le> fst a" by (auto simp: x)
  from older_keeps_first [OF this, of k0] show ?thesis
    by (simp add: findOldestEntry_def x entry_of_def older_def)
qed

lemma delete_first:
  assumes "distinct (keys_of (x # xs))"
  shows "AList.delete (fst (snd x)) (map entry_of (x # xs)) = map entry_of xs"
proof -
  from assms have "fst (snd x) \<notin> set (keys_of xs)" by (simp add: keys_of_def)
  then have "fst (snd x) \<notin> fst ` set (map entry_of xs)" by (metis keys_entry_of)
  then have "AList.delete (fst (snd x)) (map entry_of xs) = map entry_of xs" by simp
  then show ?thesis by (cases x) (simp add: entry_of_def)
qed

lemma cache_set_evict:
  assumes "\<forall>a \<in> set (x # xs). now - fst a \<le> t" and "length (x # xs) = n"
    and "sorted (map fst (x # xs))" and "distinct (keys_of (x # xs))"
    and "key \<notin> set (keys_of (x # xs))" and "fst (snd x) \<noteq> []"
  shows "cache_set now key v \<lparr>cache = map entry_of (x # xs), maxSize = n, ttl = t\<rparr> =
         \<lparr>cache = map entry_of (xs @ [(now, key, v)]), maxSize = n, ttl = t\<rparr>"
proof -
  let ?c = "\<lparr>cache = map entry_of (x # xs), maxSize = n, ttl = t\<rparr>"
  have ev: "evictOldest ?c = \<lparr>cache = map entry_of xs, maxSize = n, ttl = t\<rparr>"
    using assms(2,6) findOldestEntry_first [OF assms(3), of n t] delete_first [OF assms(4)]
    by (simp add: evictOldest_def)
  from assms(5) have "key \<notin> set (keys_of xs)" by (simp add: keys_of_def)
  then have "key \<notin> fst ` set (map entry_of xs)" by (metis keys_entry_of)
  then have "AList.update key \<lparr>entry_value = v, entry_timestamp = now\<rparr> (map entry_of xs) =
             map entry_of xs @ [(key, \<lparr>entry_value = v, entry_timestamp = now\<rparr>)]"
    by (rule update_new_key)
  moreover have "cache_set now key v ?c =
    \<lparr>cache = AList.update key \<lparr>entry_value = v, entry_timestamp = now\<rparr> (map entry_of xs),
       maxSize = n, ttl = t\<rparr>"
    unfolding cache_set_def Let_def cleanExpired_fresh [OF assms(1)] ev by simp
  ultimately show ?thesis by (simp add: entry_of_def)
qed

lemma set_all_snoc: "set_all (ops @ [(now, key, v)]) c = cache_set now key v (set_all ops c)"
  by (simp add: set_all_def)

lemma steady_clock_butlast: "steady_clock t (ops @ [op]) \<Longrightarrow> steady_clock t ops"
  by (auto simp: steady_clock_def sorted_append)

lemma set_all_fill:
  assumes "distinct (keys_of ops)" and "steady_clock t ops" and "length ops \<le> n"
  shows "set_all ops (new_TranslationCache n t) = \<lparr>cache = map entry_of ops, maxSize = n, ttl = t\<rparr>"
  using assms
proof (induction ops rule: rev_induct)
  case Nil
  show ?case by (simp add: set_all_def new_TranslationCache_def)
next
  case (snoc op ops)
  obtain now key v where op: "op = (now, key, v)" by (cases op) auto
  from snoc.prems have d: "distinct (keys_of ops)" and new: "key \<notin> set (keys_of ops)"
    by (auto simp: keys_of_def op)
  from snoc.prems(2) have fresh: "\<forall>a \<in> set ops. now - fst a \<le> t"
    by (auto simp: steady_clock_def op)
  from snoc.prems(3) have room: "length ops < n" by simp
  have "set_all ops (new_TranslationCache n t) = \<lparr>cache = map entry_of ops, maxSize = n, ttl = t\<rparr>"
    using snoc.IH [OF d steady_clock_butlast [OF snoc.prems(2)]] room by simp
  then show ?case
    by (simp add: op set_all_snoc cache_set_append [OF fresh room new])
qed

lemma set_all_overflow:
  assumes "distinct (keys_of ops)" and "steady_clock t ops" and "length ops = Suc n" and "0 < n"
    and "[] \<notin> set (keys_of ops)"
  shows "cache (set_all ops (new_TranslationCache n t)) = map entry_of (tl ops)"
proof -
  from assms(3) obtain op ops' where split: "ops = ops' @ [op]" and len: "length ops' = n"
    by (cases ops rule: rev_cases) auto
  obtain now key v where op: "op = (now, key, v)" by (cases op) auto
  from len assms(4) obtain x xs where ops': "ops' = x # xs" by (cases ops') auto
  from assms(1) have d: "distinct (keys_of ops')" and new: "key \<notin> set (keys_of ops')"
    by (auto simp: keys_of_def split op)
  from assms(2) have st: "steady_clock t ops'" unfolding split by (rule steady_clock_butlast)
  from assms(2) have fresh: "\<forall>a \<in> set ops'. now - fst a \<le> t"
    by (auto simp: steady_clock_def split op)
  from assms(5) have ne: "fst (snd x) \<noteq> []" by (auto simp: keys_of_def split ops')
  have filled: "set_all ops' (new_TranslationCache n t) =
                \<lparr>cache = map entry_of (x # xs), maxSize = n, ttl = t\<rparr>"
    using set_all_fill [OF d st] len by (simp add: ops')
  have "set_all ops (new_TranslationCache n t) =
        cache_set now key v (set_all ops' (new_TranslationCache n t))"
    by (simp only: split op set_all_snoc)
  also have "\<dots> = \<lparr>cache = map entry_of (xs @ [(now, key, v)]), maxSize = n, ttl = t\<rparr>"
    unfolding filled
  proof (rule cache_set_evict)
    show "\<forall>a \<in> set (x # xs). now - fst a \<le> t" using fresh by (simp add: ops')
    show "length (x # xs) = n" using len by (simp add: ops')
    show "sorted (map fst (x # xs))" using st by (simp add: steady_clock_def ops')
    show "distinct (keys_of (x # xs))" using d by (simp add: ops')
    show "key \<notin> set (keys_of (x # xs))" using new by (simp add: ops')
    show "fst (snd x) \<noteq> []" by (rule ne)
  qed
  finally have "set_all ops (new_TranslationCache n t) =
             \<lparr>cache = map entry_of (xs @ [(now, key, v)]), maxSize = n, ttl = t\<rparr>" .
  then show ?thesis by (simp add: split op ops')
qed

lemma cache_set_p6_append:
  assumes "length xs < n" and "key \<notin> fst ` set xs"
  shows "cache_set_p6 key v \<lparr>cache_p6 = xs, maxSize_p6 = n\<rparr> =
         \<lparr>cache_p6 = xs @ [(key, v)], maxSize_p6 = n\<rparr>"
  using assms(1) update_new_key [OF assms(2), of v] by (simp add: cache_set_p6_def)

lemma cache_set_p6_evict:
  assumes "length (x # xs) = n" and "distinct (map fst (x # xs))" and "key \<notin> fst ` set (x # xs)"
  shows "cache_set_p6 key v \<lparr>cache_p6 = x # xs, maxSize_p6 = n\<rparr> =
         \<lparr>cache_p6 = xs @ [(key, v)], maxSize_p6 = n\<rparr>"
proof -
  from assms(2) have "fst x \<notin> fst ` set xs" by auto
  then have del: "AList.delete (fst x) (x # xs) = xs" by (cases x) simp
  from assms(3) have "key \<notin> fst ` set xs" by simp
  from update_new_key [OF this, of v] del assms(1) show ?thesis
    by (cases x) (simp add: cache_set_p6_def)
qed

lemma set_all_p6_snoc: "set_all_p6 (ops @ [(key, v)]) c = cache_set_p6 key v (set_all_p6 ops c)"
  by (simp add: set_all_p6_def)

lemma set_all_p6_fill:
  assumes "distinct (map fst ops)" and "length ops \<le> n"
  shows "set_all_p6 ops (new_TranslationCache_p6 n) = \<lparr>cache_p6 = ops, maxSize_p6 = n\<rparr>"
  using assms
proof (induction ops rule: rev_induct)
  case Nil
  show ?case by (simp add: set_all_p6_def new_TranslationCache_p6_def)
next
  case (snoc op ops)
  obtain key v where op: "op = (key, v)" by (cases op)
  from snoc.prems have d: "distinct (map fst ops)" and new: "key \<notin> fst ` set ops"
    and room: "length ops < n" by (auto simp: op)
  from snoc.IH [OF d] room
  have "set_all_p6 ops (new_TranslationCache_p6 n) = \<lparr>cache_p6 = ops, maxSize_p6 = n\<rparr>" by simp
  then show ?case by (simp add: op set_all_p6_snoc cache_set_p6_append [OF room new])
qed

lemma set_all_p6_overflow:
  assumes "distinct (map fst ops)" and "length ops = Suc n" and "0 < n"
  shows "cache_p6 (set_all_p6 ops (new_TranslationCache_p6 n)) = tl ops"
proof -
  from assms(2) obtain op ops' where split: "ops = ops' @ [op]" and len: "length ops' = n"
    by (cases ops rule: rev_cases) auto
  obtain key v where op: "op = (key, v)" by (cases op)
  from len assms(3) obtain x xs where ops': "ops' = x # xs" by (cases ops') auto
  from assms(1) have d: "distinct (map fst (x # xs))" and new: "key \<notin> fst ` set (x # xs)"
    by (auto simp: split op ops')
  have filled: "set_all_p6 ops' (new_TranslationCache_p6 n) = \<lparr>cache_p6 = x # xs, maxSize_p6 = n\<rparr>"
    using set_all_p6_fill [of ops' n] d len by (simp add: ops')
  have "set_all_p6 ops (new_TranslationCache_p6 n) =
        cache_set_p6 key v (set_all_p6 ops' (new_TranslationCache_p6 n))"
    by (simp only: split op set_all_p6_snoc)
  also have "\<dots> = \<lparr>cache_p6 = xs @ [(key, v)], maxSize_p6 = n\<rparr>"
    unfolding filled using len d new by (intro cache_set_p6_evict) (simp_all add: ops')
  finally show ?thesis by (simp add: split op ops')
qed

lemma evictOldest_keys: "fst ` set (cache (evictOldest c)) \<subseteq> fst ` set (cache c)"
proof (cases "findOldestEntry c")
  case None
  then show ?thesis by (simp add: evictOldest_def)
next
  case (Some k)
  then show ?thesis
    using AList.dom_delete_subset [of k "cache c"] by (simp add: evictOldest_def)
qed

lemma cache_set_keys:
  "fst ` set (cache (cache_set now key v c)) \<subseteq> insert key (fst ` set (cache c))"
proof -
  have "fst ` set (cache (evictOldest (cleanExpired now c))) \<subseteq> fst ` set (cache c)"
    using evictOldest_keys [of "cleanExpired now c"] keys_cleanExpired [of now c] by blast
  then show ?thesis
    unfolding cache_set_def Let_def by (auto simp add: AList.dom_update)
qed

lemma first_key_gone:
  assumes "distinct (keys_of ops)" and "ops \<noteq> []"
  shows "fst (snd (hd ops)) \<notin> fst ` set (map entry_of (tl ops))"
proof -
  from assms(2) obtain x xs where ops: "ops = x # xs" by (cases ops) auto
  from assms(1) have "fst (snd x) \<notin> set (keys_of xs)" by (simp add: ops keys_of_def)
  then show ?thesis by (metis keys_entry_of ops list.sel(1,3))
qed

text \<open>
  C6, as stated, fails for the cache with expiry: \<open>set\<close> first removes every expired entry,
  so three distinct keys set into an empty cache of capacity two, more than the time to live
  apart, leave one entry and not two.
\<close>

theorem cache_expiry_shrinks:
  "length (cache (set_all [(0, ''a'', ''1''), (100, ''b'', ''2''), (200, ''c'', ''3'')]
                   (new_TranslationCache 2 10))) = 1"
  by code_simp

text \<open>
  C6, amended. For a capacity \<open>n > 0\<close>: \<open>set\<close> keeps the size of the cache within \<open>n\<close>
  (in the cache with expiry, for keys that are not the empty string, which is what
  \<open>generateCacheKey\<close> produces). Setting \<open>n + 1\<close> distinct keys into an empty cache leaves
  exactly the last \<open>n\<close> of them, so \<open>n\<close> entries without the key set first; in the cache with
  expiry this holds when the clock does not run backwards and the calls are at most the time to
  live apart, and otherwise expired entries are removed as well.
\<close>

theorem cache_bounded:
  assumes "0 < n"
  shows "(maxSize c = n \<and> length (cache c) \<le> n \<and> [] \<notin> fst ` set (cache c) \<and> key \<noteq> [] \<longrightarrow>
            length (cache (cache_set now key v c)) \<le> n \<and>
            maxSize (cache_set now key v c) = n \<and>
            [] \<notin> fst ` set (cache (cache_set now key v c))) \<and>
         (maxSize_p6 c6 = n \<and> length (cache_p6 c6) \<le> n \<longrightarrow>
            length (cache_p6 (cache_set_p6 key v c6)) \<le> n \<and>
            maxSize_p6 (cache_set_p6 key v c6) = n) \<and>
         (length ops = Suc n \<and> distinct (keys_of ops) \<and> [] \<notin> set (keys_of ops) \<and>
          steady_clock t ops \<longrightarrow>
            cache (set_all ops (new_TranslationCache n t)) = map entry_of (tl ops) \<and>
            length (cache (set_all ops (new_TranslationCache n t))) = n \<and>
            fst (snd (hd ops)) \<notin> fst ` set (cache (set_all ops (new_TranslationCache n t)))) \<and>
         (length ops6 = Suc n \<and> distinct (map fst ops6) \<longrightarrow>
            cache_p6 (set_all_p6 ops6 (new_TranslationCache_p6 n)) = tl ops6 \<and>
            length (cache_p6 (set_all_p6 ops6 (new_TranslationCache_p6 n))) = n \<and>
            fst (hd ops6) \<notin> fst ` set (cache_p6 (set_all_p6 ops6 (new_TranslationCache_p6 n))))"
proof (intro conjI impI)
  assume a: "maxSize c = n \<and> length (cache c) \<le> n \<and> [] \<notin> fst ` set (cache c) \<and> key \<noteq> []"
  with assms show "length (cache (cache_set now key v c)) \<le> n"
    using cache_set_size [of c now key v] by simp
  from a show "maxSize (cache_set now key v c) = n" by simp
  from a cache_set_keys [of now key v c] show "[] \<notin> fst ` set (cache (cache_set now key v c))"
    by blast
next
  assume a: "maxSize_p6 c6 = n \<and> length (cache_p6 c6) \<le> n"
  with assms cache_set_p6_size [of c6 key v]
  show "length (cache_p6 (cache_set_p6 key v c6)) \<le> n"
    and "maxSize_p6 (cache_set_p6 key v c6) = n" by simp_all
next
  assume a: "length ops = Suc n \<and> distinct (keys_of ops) \<and> [] \<notin> set (keys_of ops) \<and>
             steady_clock t ops"
  then have eq: "cache (set_all ops (new_TranslationCache n t)) = map entry_of (tl ops)"
    using set_all_overflow [of ops t n] assms by simp
  then show "cache (set_all ops (new_TranslationCache n t)) = map entry_of (tl ops)" .
  from a show "length (cache (set_all ops (new_TranslationCache n t))) = n"
    by (simp add: eq)
  from a have "ops \<noteq> []" by auto
  with a first_key_gone [of ops]
  have "fst (snd (hd ops)) \<notin> fst ` set (map entry_of (tl ops))" by blast
  then show "fst (snd (hd ops)) \<notin> fst ` set (cache (set_all ops (new_TranslationCache n t)))"
    unfolding eq .
next
  assume a: "length ops6 = Suc n \<and> distinct (map fst ops6)"
  then have eq: "cache_p6 (set_all_p6 ops6 (new_TranslationCache_p6 n)) = tl ops6"
    using set_all_p6_overflow [of ops6 n] assms by simp
  then show "cache_p6 (set_all_p6 ops6 (new_TranslationCache_p6 n)) = tl ops6" .
  from a show "length (cache_p6 (set_all_p6 ops6 (new_TranslationCache_p6 n))) = n"
    by (simp add: eq)
  from a obtain x xs where "ops6 = x # xs" by (cases ops6) auto
  with a have "fst (hd ops6) \<notin> fst ` set (tl ops6)" by auto
  then show "fst (hd ops6) \<notin> fst ` set (cache_p6 (set_all_p6 ops6 (new_TranslationCache_p6 n)))"
    unfolding eq .
qed

theorem cache_bounded_witness:
  "length (cache (cache_set 5 ''es-en-c'' ''3''
      (set_all [(0, ''es-en-a'', ''1''), (1, ''es-en-b'', ''2'')] (new_TranslationCache 2 10)))) \<le> 2 \<and>
   length (cache_p6 (cache_set_p6 ''es-en-c'' ''3''
      \<lparr>cache_p6 = [(''es-en-a'', ''1''), (''es-en-b'', ''2'')], maxSize_p6 = 2\<rparr>)) \<le> 2 \<and>
   length (cache (set_all [(0, ''es-en-a'', ''1''), (1, ''es-en-b'', ''2''), (2, ''es-en-c'', ''3'')]
      (new_TranslationCache 2 10))) = 2 \<and>
   length (cache_p6 (set_all_p6 [(''es-en-a'', ''1''), (''es-en-b'', ''2''), (''es-en-c'', ''3'')]
      (new_TranslationCache_p6 2))) = 2"
proof -
  have pos: "0 < (2::nat)" by simp
  have h1: "maxSize (set_all [(0, ''es-en-a'', ''1''), (1, ''es-en-b'', ''2'')] (new_TranslationCache 2 10)) = 2 \<and>
    length (cache (set_all [(0, ''es-en-a'', ''1''), (1, ''es-en-b'', ''2'')] (new_TranslationCache 2 10))) \<le> 2 \<and>
    [] \<notin> fst ` set (cache (set_all [(0, ''es-en-a'', ''1''), (1, ''es-en-b'', ''2'')] (new_TranslationCache 2 10))) \<and>
    ''es-en-c'' \<noteq> []"
    by code_simp
  have h2: "maxSize_p6 \<lparr>cache_p6 = [(''es-en-a'', ''1''), (''es-en-b'', ''2'')], maxSize_p6 = 2\<rparr> = 2 \<and>
    length (cache_p6 \<lparr>cache_p6 = [(''es-en-a'', ''1''), (''es-en-b'', ''2'')], maxSize_p6 = 2\<rparr>) \<le> 2"
    by simp
  have h3: "length [(0, ''es-en-a'', ''1''), (1, ''es-en-b'', ''2''), (2::int, ''es-en-c'', ''3'')] = Suc 2 \<and>
    distinct (keys_of [(0, ''es-en-a'', ''1''), (1, ''es-en-b'', ''2''), (2, ''es-en-c'', ''3'')]) \<and>
    [] \<notin> set (keys_of [(0, ''es-en-a'', ''1''), (1, ''es-en-b'', ''2''), (2, ''es-en-c'', ''3'')]) \<and>
    steady_clock 10 [(0, ''es-en-a'', ''1''), (1, ''es-en-b'', ''2''), (2, ''es-en-c'', ''3'')]"
    by code_simp
  have h4: "length [(''es-en-a'', ''1''), (''es-en-b'', ''2''), (''es-en-c'', ''3'')] = Suc 2 \<and>
    distinct (map fst [(''es-en-a'', ''1''), (''es-en-b'', ''2''), (''es-en-c'', ''3'')])"
    by simp
  from cache_bounded [OF pos,
      of "set_all [(0, ''es-en-a'', ''1''), (1, ''es-en-b'', ''2'')] (new_TranslationCache 2 10)"
         "''es-en-c''" 5 "''3''"
         "\<lparr>cache_p6 = [(''es-en-a'', ''1''), (''es-en-b'', ''2'')], maxSize_p6 = 2\<rparr>"
         "[(0, ''es-en-a'', ''1''), (1, ''es-en-b'', ''2''), (2, ''es-en-c'', ''3'')]" 10
         "[(''es-en-a'', ''1''), (''es-en-b'', ''2''), (''es-en-c'', ''3'')]"]
    pos h1 h2 h3 h4
  show ?thesis by blast
qed

section \<open>Properties of the concurrency limiter\<close>

lemma step_invariant:
  assumes "step l c = Some l'"
    and "0 \<le> count (lim_sem l)"
    and "count (lim_sem l) + int (length (admitted l)) = n"
    and "tasks (lim_sem l) \<noteq> [] \<longrightarrow> count (lim_sem l) = 0"
  shows "0 \<le> count (lim_sem l') \<and> count (lim_sem l') + int (length (admitted l')) = n \<and>
         (tasks (lim_sem l') \<noteq> [] \<longrightarrow> count (lim_sem l') = 0)"
proof (cases c)
  case (Acquire a)
  with assms show ?thesis
    by (auto simp: acquire_def split: if_splits)
next
  case (Release a)
  with assms have held: "a \<in> set (admitted l)" by (simp split: if_splits)
  then have "0 < length (admitted l)" by (rule length_pos_if_in_set)
  moreover from held have "length (remove1 a (admitted l)) = length (admitted l) - 1"
    by (simp add: length_remove1)
  ultimately have len: "int (length (remove1 a (admitted l))) = int (length (admitted l)) - 1"
    by linarith
  note pos = held
  show ?thesis
  proof (cases "tasks (lim_sem l)")
    case Nil
    with assms Release held len pos show ?thesis
      by (auto simp: release_def Let_def)
  next
    case (Cons w ws)
    with assms Release held len pos show ?thesis
      by (auto simp: release_def Let_def)
  qed
qed

lemma run_invariant:
  assumes "run l cs = Some l'"
    and "0 \<le> count (lim_sem l)"
    and "count (lim_sem l) + int (length (admitted l)) = n"
    and "tasks (lim_sem l) \<noteq> [] \<longrightarrow> count (lim_sem l) = 0"
  shows "0 \<le> count (lim_sem l') \<and> count (lim_sem l') + int (length (admitted l')) = n \<and>
         (tasks (lim_sem l') \<noteq> [] \<longrightarrow> count (lim_sem l') = 0)"
  using assms
proof (induction cs arbitrary: l)
  case Nil
  then show ?case by simp
next
  case (Cons c cs)
  from Cons.prems(1) obtain m where st: "step l c = Some m" and rest: "run m cs = Some l'"
    by (auto split: option.splits)
  from step_invariant [OF st Cons.prems(2,3,4)] Cons.IH [OF rest] show ?case by blast
qed

lemma release_hands_over:
  assumes "tasks s = w # ws"
  shows "release s = (s\<lparr>tasks := ws\<rparr>, Some w)"
  using assms by (simp add: release_def Let_def)

lemma acquire_queues:
  assumes "\<not> count s > 0"
  shows "acquire c s = (s\<lparr>tasks := tasks s @ [c]\<rparr>, False)"
  using assms by (simp add: acquire_def)

text \<open>
  C3. In every state that a limiter built with \<open>n \<ge> 0\<close> permits reaches through calls of
  \<open>acquire\<close> and matching calls of \<open>release\<close>: the permit count is not negative; the
  callers between a completed \<open>acquire\<close> and the matching \<open>release\<close> are at most \<open>n\<close>
  (they and the free permits add up to \<open>n\<close>); and while callers are queued no permit is free,
  \<open>release\<close> resumes the caller at the front of the queue and leaves the count as it was,
  and \<open>acquire\<close> queues a new caller at the back.
\<close>

theorem semaphore_invariants:
  assumes "0 \<le> n" and "run (new_limiter n) calls = Some l"
  shows "0 \<le> count (lim_sem l) \<and>
         int (length (admitted l)) \<le> n \<and>
         count (lim_sem l) + int (length (admitted l)) = n \<and>
         (\<forall>w ws. tasks (lim_sem l) = w # ws \<longrightarrow>
            count (lim_sem l) = 0 \<and>
            release (lim_sem l) = ((lim_sem l)\<lparr>tasks := ws\<rparr>, Some w) \<and>
            (\<forall>c. acquire c (lim_sem l) = ((lim_sem l)\<lparr>tasks := w # ws @ [c]\<rparr>, False)))"
proof -
  have inv: "0 \<le> count (lim_sem l) \<and> count (lim_sem l) + int (length (admitted l)) = n \<and>
         (tasks (lim_sem l) \<noteq> [] \<longrightarrow> count (lim_sem l) = 0)"
    using run_invariant [OF assms(2), of n] assms(1)
    by (simp add: new_limiter_def new_Semaphore_def)
  then have "int (length (admitted l)) \<le> n" by linarith
  moreover have "\<forall>w ws. tasks (lim_sem l) = w # ws \<longrightarrow>
            count (lim_sem l) = 0 \<and>
            release (lim_sem l) = ((lim_sem l)\<lparr>tasks := ws\<rparr>, Some w) \<and>
            (\<forall>c. acquire c (lim_sem l) = ((lim_sem l)\<lparr>tasks := w # ws @ [c]\<rparr>, False))"
    using inv by (auto simp: release_hands_over acquire_def)
  ultimately show ?thesis using inv by blast
qed

theorem semaphore_invariants_witness:
  "0 \<le> (2::int) \<and>
   run (new_limiter 2) [Acquire 1, Acquire 2, Acquire 3, Acquire 4] =
     Some \<lparr>lim_sem = \<lparr>count = 0, tasks = [3, 4]\<rparr>, admitted = [2, 1]\<rparr> \<and>
   int (length [2, 1 :: nat]) \<le> 2 \<and>
   release \<lparr>count = 0, tasks = [3, 4]\<rparr> = (\<lparr>count = 0, tasks = [4]\<rparr>, Some 3) \<and>
   acquire 5 \<lparr>count = 0, tasks = [3, 4]\<rparr> = (\<lparr>count = 0, tasks = [3, 4, 5]\<rparr>, False)"
proof -
  have n: "0 \<le> (2::int)" by simp
  have r: "run (new_limiter 2) [Acquire 1, Acquire 2, Acquire 3, Acquire 4] =
     Some \<lparr>lim_sem = \<lparr>count = 0, tasks = [3, 4]\<rparr>, admitted = [2, 1]\<rparr>"
    by (simp add: new_limiter_def new_Semaphore_def acquire_def)
  from semaphore_invariants [OF n r] n r show ?thesis by simp
qed

section \<open>Properties of the call executor\<close>

lemma attempt_body_resolve:
  assumes "respond up (sent (trace w)) = Resolve r"
  shows "attempt_body cfg up req a w = (finally_release a (send up req a w), Returned r)"
  using assms by (subst attempt_body.simps) simp

lemma attempt_body_throw:
  assumes "respond up (sent (trace w)) = Reject e" and "cfg_retries cfg \<le> a \<or> \<not> cfg_retryable cfg e"
  shows "attempt_body cfg up req a w = (finally_release a (send up req a w), Thrown e)"
  using assms by (subst attempt_body.simps) auto

lemma attempt_body_retry:
  assumes "respond up (sent (trace w)) = Reject e" and "a < cfg_retries cfg"
    and "cfg_retryable cfg e" and "tasks (semaphore w) = []"
  shows "attempt_body cfg up req a w = attempt_body cfg up req (a + 1) (handover cfg up req a w)"
  using assms by (subst attempt_body.simps) (simp add: handover_def split: prod.splits)

lemma semaphore_send [simp]: "semaphore (send up req a w) = semaphore w"
  by (simp add: send_def)

lemma semaphore_sleep [simp]: "semaphore (sleep cfg up n a w) = semaphore w"
  by (simp add: sleep_def)

lemma semaphore_handover:
  assumes "tasks (semaphore w) = []"
  shows "semaphore (handover cfg up req a w) = semaphore w"
  using assms
  by (simp add: handover_def finally_release_def enter_def acquire_def release_def Let_def)

lemma trace_handover:
  assumes "tasks (semaphore w) = []"
  shows "trace (handover cfg up req a w) =
         trace w @ [Request a (count (semaphore w)) req,
                    Backoff a (count (semaphore w)) (cfg_delay cfg a),
                    Invoke (a + 1), Released a (count (semaphore w))]"
  using assms
  by (simp add: handover_def finally_release_def enter_def acquire_def release_def Let_def
      send_def sleep_def)

lemma semaphore_settle:
  assumes "tasks (semaphore w) = []"
  shows "semaphore (finally_release a (send up req a w)) = (semaphore w)\<lparr>count := count (semaphore w) + 1\<rparr>"
  using assms by (simp add: finally_release_def release_def Let_def)

lemma trace_settle:
  assumes "tasks (semaphore w) = []"
  shows "trace (finally_release a (send up req a w)) =
         trace w @ [Request a (count (semaphore w)) req, Released a (count (semaphore w) + 1)]"
  using assms by (simp add: finally_release_def release_def Let_def send_def)

lemma clock_settle: "clock (finally_release a (send up req a w)) = clock w + int (latency up (sent (trace w)))"
  by (simp add: finally_release_def send_def split: prod.splits)

lemma sent_append [simp]: "sent (xs @ ys) = sent xs + sent ys"
  by (simp add: sent_def)

lemma sent_handover:
  assumes "tasks (semaphore w) = []"
  shows "sent (trace (handover cfg up req a w)) = Suc (sent (trace w))"
  by (simp add: trace_handover [OF assms]) (simp add: sent_def)

lemma sent_settle:
  assumes "tasks (semaphore w) = []"
  shows "sent (trace (finally_release a (send up req a w))) = Suc (sent (trace w))"
  by (simp add: trace_settle [OF assms]) (simp add: sent_def)

lemma holds_one_mono: "holds_one f req (Suc a) ev \<Longrightarrow> holds_one f req a ev"
  by (cases ev) auto

lemma attempt_body_run:
  assumes "tasks (semaphore w) = []"
  shows "\<exists>rest. trace (fst (attempt_body cfg up req a w)) = trace w @ rest \<and>
           (\<forall>ev \<in> set rest. holds_one (count (semaphore w)) req a ev) \<and> 1 \<le> sent rest \<and>
           semaphore (fst (attempt_body cfg up req a w)) =
             (semaphore w)\<lparr>count := count (semaphore w) + 1\<rparr> \<and>
           settles (snd (attempt_body cfg up req a w))"
  using assms
proof (induction cfg up req a w rule: attempt_body.induct)
  case (1 cfg up req a w)
  note free = \<open>tasks (semaphore w) = []\<close>
  let ?f = "count (semaphore w)"
  have fin: "\<exists>rest. trace (finally_release a (send up req a w)) = trace w @ rest \<and>
           (\<forall>ev \<in> set rest. holds_one ?f req a ev) \<and> 1 \<le> sent rest \<and>
           semaphore (finally_release a (send up req a w)) = (semaphore w)\<lparr>count := ?f + 1\<rparr>"
    by (intro exI [of _ "[Request a ?f req, Released a (?f + 1)]"])
       (simp add: trace_settle [OF free] semaphore_settle [OF free] sent_def)
  show ?case
  proof (cases "respond up (sent (trace w))")
    case (Resolve r)
    with fin show ?thesis by (simp add: attempt_body_resolve settles_def)
  next
    case (Reject e)
    show ?thesis
    proof (cases "a < cfg_retries cfg \<and> cfg_retryable cfg e")
      case False
      then have "cfg_retries cfg \<le> a \<or> \<not> cfg_retryable cfg e" by auto
      from attempt_body_throw [OF Reject this] fin show ?thesis by (simp add: settles_def)
    next
      case True
      let ?h = "handover cfg up req a w"
      obtain w' got where ent:
        "enter (a + 1) (sleep cfg up (sent (trace w)) a (send up req a w)) = (w', got)"
        by (cases "enter (a + 1) (sleep cfg up (sent (trace w)) a (send up req a w))")
      then have h: "?h = finally_release a w'" by (simp add: handover_def)
      have sem: "semaphore ?h = semaphore w" by (rule semaphore_handover [OF free])
      have tr: "trace ?h = trace w @ [Request a ?f req, Backoff a ?f (cfg_delay cfg a),
                    Invoke (a + 1), Released a ?f]"
        by (rule trace_handover [OF free])
      from True have "\<not> cfg_retries cfg \<le> a" and "cfg_retryable cfg e" by auto
      from this have "\<exists>rest. trace (fst (attempt_body cfg up req (a + 1) ?h)) = trace ?h @ rest \<and>
           (\<forall>ev \<in> set rest. holds_one (count (semaphore ?h)) req (a + 1) ev) \<and> 1 \<le> sent rest \<and>
           semaphore (fst (attempt_body cfg up req (a + 1) ?h)) =
             (semaphore ?h)\<lparr>count := count (semaphore ?h) + 1\<rparr> \<and>
           settles (snd (attempt_body cfg up req (a + 1) ?h))"
        unfolding h using free sem h
        by (intro "1.IH" [OF Reject _ _ ent [symmetric] disjI2 [OF free]]) simp_all
      then obtain rest where rest: "trace (fst (attempt_body cfg up req (a + 1) ?h)) = trace ?h @ rest"
        and one: "\<forall>ev \<in> set rest. holds_one ?f req (a + 1) ev"
        and sm: "semaphore (fst (attempt_body cfg up req (a + 1) ?h)) = (semaphore w)\<lparr>count := ?f + 1\<rparr>"
        and st: "settles (snd (attempt_body cfg up req (a + 1) ?h))"
        unfolding sem by auto
      have eq: "attempt_body cfg up req a w = attempt_body cfg up req (a + 1) ?h"
        using True by (intro attempt_body_retry [OF Reject _ _ free]) auto
      let ?new = "[Request a ?f req, Backoff a ?f (cfg_delay cfg a), Invoke (a + 1), Released a ?f] @ rest"
      have "trace (fst (attempt_body cfg up req a w)) = trace w @ ?new"
        unfolding eq rest tr by simp
      moreover have "\<forall>ev \<in> set ?new. holds_one ?f req a ev"
        using one holds_one_mono [of ?f req a] by auto
      moreover have "1 \<le> sent ?new" by (simp add: sent_def)
      ultimately show ?thesis using sm st unfolding eq by blast
    qed
  qed
qed

lemma attempts_of_append [simp]: "attempts_of (xs @ ys) = attempts_of xs @ attempts_of ys"
  by (induction xs rule: attempts_of.induct) simp_all

lemma new_events_append: "trace w' = trace w @ rest \<Longrightarrow> new_events w w' = rest"
  by (simp add: new_events_def)

lemma attempt_body_exhaust:
  assumes "tasks (semaphore w) = []"
    and "\<forall>n. \<exists>e. respond up n = Reject e \<and> cfg_retryable cfg e"
    and "a \<le> cfg_retries cfg"
  shows "\<exists>rest e. trace (fst (attempt_body cfg up req a w)) = trace w @ rest \<and>
           attempts_of rest = [a..<cfg_retries cfg + 1] \<and>
           respond up (sent (trace w) + (cfg_retries cfg - a)) = Reject e \<and>
           snd (attempt_body cfg up req a w) = Thrown e"
  using assms(1,3)
proof (induction "cfg_retries cfg - a" arbitrary: a w)
  case 0
  then have last: "cfg_retries cfg \<le> a" and a: "a = cfg_retries cfg" by simp_all
  from assms(2) obtain e where e: "respond up (sent (trace w)) = Reject e" by blast
  have "attempt_body cfg up req a w = (finally_release a (send up req a w), Thrown e)"
    by (rule attempt_body_throw [OF e disjI1 [OF last]])
  moreover have "trace (finally_release a (send up req a w)) =
      trace w @ [Request a (count (semaphore w)) req, Released a (count (semaphore w) + 1)]"
    by (rule trace_settle [OF "0.prems"(1)])
  moreover have "attempts_of [Request a (count (semaphore w)) req, Released a (count (semaphore w) + 1)] =
      [a..<cfg_retries cfg + 1]" by (simp add: a)
  ultimately show ?case using e a by (intro exI conjI) (simp_all del: attempts_of.simps)
next
  case (Suc k)
  then have lt: "a < cfg_retries cfg" by simp
  from assms(2) obtain e where e: "respond up (sent (trace w)) = Reject e"
    and r: "cfg_retryable cfg e" by blast
  let ?h = "handover cfg up req a w"
  note free = Suc.prems(1)
  have eq: "attempt_body cfg up req a w = attempt_body cfg up req (a + 1) ?h"
    by (rule attempt_body_retry [OF e lt r free])
  have "k = cfg_retries cfg - (a + 1)" using Suc.hyps(2) by simp
  moreover have "tasks (semaphore ?h) = []" using free by (simp add: semaphore_handover)
  moreover have "a + 1 \<le> cfg_retries cfg" using lt by simp
  ultimately obtain rest e' where
    tr: "trace (fst (attempt_body cfg up req (a + 1) ?h)) = trace ?h @ rest"
    and at: "attempts_of rest = [a + 1..<cfg_retries cfg + 1]"
    and re: "respond up (sent (trace ?h) + (cfg_retries cfg - (a + 1))) = Reject e'"
    and th: "snd (attempt_body cfg up req (a + 1) ?h) = Thrown e'"
    using Suc.hyps(1) [of "a + 1" ?h] by blast
  let ?new = "[Request a (count (semaphore w)) req, Backoff a (count (semaphore w)) (cfg_delay cfg a),
               Invoke (a + 1), Released a (count (semaphore w))] @ rest"
  have "trace (fst (attempt_body cfg up req a w)) = trace w @ ?new"
    unfolding eq tr trace_handover [OF free] by simp
  moreover have "attempts_of ?new = [a..<cfg_retries cfg + 1]"
    using lt at by (simp add: upt_conv_Cons)
  moreover have "respond up (sent (trace w) + (cfg_retries cfg - a)) = Reject e'"
  proof -
    have "sent (trace ?h) + (cfg_retries cfg - (a + 1)) = sent (trace w) + (cfg_retries cfg - a)"
      using lt by (simp add: sent_handover [OF free])
    with re show ?thesis by simp
  qed
  moreover have "snd (attempt_body cfg up req a w) = Thrown e'" unfolding eq by (rule th)
  ultimately show ?case by blast
qed

lemma enter_free:
  assumes "0 < count (semaphore w)"
  shows "enter a w = (w\<lparr>semaphore := (semaphore w)\<lparr>count := count (semaphore w) - 1\<rparr>,
                        trace := trace w @ [Invoke a]\<rparr>, True)"
  using assms by (simp add: enter_def acquire_def)

lemma call_limited_free:
  assumes "0 < count (semaphore w)"
  shows "callTranslationAPI_limited cfg up req a w =
         attempt_body cfg up req a
           (w\<lparr>semaphore := (semaphore w)\<lparr>count := count (semaphore w) - 1\<rparr>,
              trace := trace w @ [Invoke a]\<rparr>)"
  by (simp add: callTranslationAPI_limited_def enter_free [OF assms])

lemma call_limited_exhaust:
  assumes "0 < count (semaphore w)" and "tasks (semaphore w) = []"
    and "\<forall>n. \<exists>e. respond up n = Reject e \<and> cfg_retryable cfg e"
  shows "\<exists>e. attempts_of (new_events w (fst (callTranslationAPI_limited cfg up req 0 w))) =
               [0..<cfg_retries cfg + 1] \<and>
             respond up (sent (trace w) + cfg_retries cfg) = Reject e \<and>
             snd (callTranslationAPI_limited cfg up req 0 w) = Thrown e"
proof -
  let ?w = "w\<lparr>semaphore := (semaphore w)\<lparr>count := count (semaphore w) - 1\<rparr>,
              trace := trace w @ [Invoke 0]\<rparr>"
  have "tasks (semaphore ?w) = []" using assms(2) by simp
  from attempt_body_exhaust [OF this assms(3), of 0 req]
  obtain rest e where tr: "trace (fst (attempt_body cfg up req 0 ?w)) = trace ?w @ rest"
    and at: "attempts_of rest = [0..<cfg_retries cfg + 1]"
    and re: "respond up (sent (trace ?w) + (cfg_retries cfg - 0)) = Reject e"
    and th: "snd (attempt_body cfg up req 0 ?w) = Thrown e" by auto
  have "trace (fst (attempt_body cfg up req 0 ?w)) = trace w @ (Invoke 0 # rest)"
    using tr by simp
  then have "new_events w (fst (attempt_body cfg up req 0 ?w)) = Invoke 0 # rest"
    by (rule new_events_append)
  moreover have "sent (trace ?w) = sent (trace w)" by (simp add: sent_def)
  ultimately show ?thesis
    using at re th by (simp add: call_limited_free [OF assms(1)])
qed

lemma trace_step_p7:
  "trace (step_p7 up req a w) = trace w @ [Invoke a, Request a (count (semaphore w)) req]"
  by (simp add: step_p7_def send_def)

lemma p7_resolve:
  assumes "respond up (sent (trace w)) = Resolve r"
  shows "callTranslationAPI_p7 up req a w = (step_p7 up req a w, Returned r)"
  using assms by (subst callTranslationAPI_p7.simps) (simp add: step_p7_def)

lemma p7_throw:
  assumes "respond up (sent (trace w)) = Reject e" and "RETRIES \<le> a \<or> \<not> isRetryable e"
  shows "callTranslationAPI_p7 up req a w = (step_p7 up req a w, Thrown e)"
  using assms by (subst callTranslationAPI_p7.simps) (auto simp add: step_p7_def)

lemma p7_retry:
  assumes "respond up (sent (trace w)) = Reject e" and "a < RETRIES" and "isRetryable e"
  shows "callTranslationAPI_p7 up req a w =
         callTranslationAPI_p7 up req (a + 1)
           (sleep free_config up (sent (trace w)) a (step_p7 up req a w))"
  using assms by (subst callTranslationAPI_p7.simps) (simp add: step_p7_def)

lemma trace_sleep:
  "trace (sleep cfg up n a w) = trace w @ [Backoff a (count (semaphore w)) (cfg_delay cfg a)]"
  by (simp add: sleep_def)

lemma p7_exhaust:
  assumes "\<forall>n. \<exists>e. respond up n = Reject e \<and> isRetryable e" and "a \<le> RETRIES"
  shows "\<exists>rest e. trace (fst (callTranslationAPI_p7 up req a w)) = trace w @ rest \<and>
           attempts_of rest = [a..<RETRIES + 1] \<and>
           respond up (sent (trace w) + (RETRIES - a)) = Reject e \<and>
           snd (callTranslationAPI_p7 up req a w) = Thrown e"
  using assms(2)
proof (induction "RETRIES - a" arbitrary: a w)
  case 0
  then have last: "RETRIES \<le> a" and a: "a = RETRIES" by simp_all
  from assms(1) obtain e where e: "respond up (sent (trace w)) = Reject e" by blast
  have "callTranslationAPI_p7 up req a w = (step_p7 up req a w, Thrown e)"
    by (rule p7_throw [OF e disjI1 [OF last]])
  moreover have "attempts_of [Invoke a, Request a (count (semaphore w)) req] = [a..<RETRIES + 1]"
    by (simp add: a)
  ultimately show ?case
    using e a trace_step_p7 [of up req a w]
    by (intro exI conjI) (simp_all del: attempts_of.simps)
next
  case (Suc k)
  then have lt: "a < RETRIES" by simp
  from assms(1) obtain e where e: "respond up (sent (trace w)) = Reject e"
    and r: "isRetryable e" by blast
  let ?h = "sleep free_config up (sent (trace w)) a (step_p7 up req a w)"
  have eq: "callTranslationAPI_p7 up req a w = callTranslationAPI_p7 up req (a + 1) ?h"
    by (rule p7_retry [OF e lt r])
  have trh: "trace ?h = trace w @ [Invoke a, Request a (count (semaphore w)) req,
                Backoff a (count (semaphore w)) (cfg_delay free_config a)]"
    by (simp add: trace_sleep trace_step_p7) (simp add: step_p7_def send_def)
  have "k = RETRIES - (a + 1)" using Suc.hyps(2) by simp
  moreover have "a + 1 \<le> RETRIES" using lt by simp
  ultimately obtain rest e' where
    tr: "trace (fst (callTranslationAPI_p7 up req (a + 1) ?h)) = trace ?h @ rest"
    and at: "attempts_of rest = [a + 1..<RETRIES + 1]"
    and re: "respond up (sent (trace ?h) + (RETRIES - (a + 1))) = Reject e'"
    and th: "snd (callTranslationAPI_p7 up req (a + 1) ?h) = Thrown e'"
    using Suc.hyps(1) [of "a + 1" ?h] by blast
  let ?new = "[Invoke a, Request a (count (semaphore w)) req,
               Backoff a (count (semaphore w)) (cfg_delay free_config a)] @ rest"
  have "trace (fst (callTranslationAPI_p7 up req a w)) = trace w @ ?new"
    unfolding eq tr trh by simp
  moreover have "attempts_of ?new = [a..<RETRIES + 1]"
    using lt at by (simp add: upt_conv_Cons)
  moreover have "respond up (sent (trace w) + (RETRIES - a)) = Reject e'"
  proof -
    have "sent (trace ?h) = Suc (sent (trace w))" unfolding trh by (simp add: sent_def)
    then have "sent (trace ?h) + (RETRIES - (a + 1)) = sent (trace w) + (RETRIES - a)"
      using lt by simp
    with re show ?thesis by simp
  qed
  moreover have "snd (callTranslationAPI_p7 up req a w) = Thrown e'" unfolding eq by (rule th)
  ultimately show ?case by blast
qed

lemma call_limited_retry_shape:
  assumes "0 < count (semaphore w)" and "tasks (semaphore w) = []" and "a < cfg_retries cfg"
    and "respond up (sent (trace w)) = Reject e" and "cfg_retryable cfg e"
  shows "\<exists>rest. new_events w (fst (callTranslationAPI_limited cfg up req a w)) =
           [Invoke a, Request a (count (semaphore w) - 1) req,
            Backoff a (count (semaphore w) - 1) (cfg_delay cfg a),
            Invoke (a + 1), Released a (count (semaphore w) - 1)] @ rest \<and>
           (\<forall>ev \<in> set rest. holds_one (count (semaphore w) - 1) req (a + 1) ev) \<and>
           1 \<le> sent rest \<and>
           semaphore (fst (callTranslationAPI_limited cfg up req a w)) = semaphore w \<and>
           settles (snd (callTranslationAPI_limited cfg up req a w))"
proof -
  let ?w = "w\<lparr>semaphore := (semaphore w)\<lparr>count := count (semaphore w) - 1\<rparr>,
              trace := trace w @ [Invoke a]\<rparr>"
  let ?h = "handover cfg up req a ?w"
  have free: "tasks (semaphore ?w) = []" using assms(2) by simp
  have same: "sent (trace ?w) = sent (trace w)" by (simp add: sent_def)
  have rej: "respond up (sent (trace ?w)) = Reject e" unfolding same by (rule assms(4))
  have eq: "callTranslationAPI_limited cfg up req a w = attempt_body cfg up req (a + 1) ?h"
    unfolding call_limited_free [OF assms(1)]
    by (rule attempt_body_retry [OF rej assms(3,5) free])
  have semh: "semaphore ?h = semaphore ?w" by (rule semaphore_handover [OF free])
  have trh: "trace ?h = trace ?w @ [Request a (count (semaphore ?w)) req,
                    Backoff a (count (semaphore ?w)) (cfg_delay cfg a),
                    Invoke (a + 1), Released a (count (semaphore ?w))]"
    by (rule trace_handover [OF free])
  have "tasks (semaphore ?h) = []" unfolding semh by (rule free)
  from attempt_body_run [OF this, of cfg up req "a + 1"]
  obtain rest where tr: "trace (fst (attempt_body cfg up req (a + 1) ?h)) = trace ?h @ rest"
    and one: "\<forall>ev \<in> set rest. holds_one (count (semaphore ?h)) req (a + 1) ev"
    and snt: "1 \<le> sent rest"
    and sm: "semaphore (fst (attempt_body cfg up req (a + 1) ?h)) =
               (semaphore ?h)\<lparr>count := count (semaphore ?h) + 1\<rparr>"
    and st: "settles (snd (attempt_body cfg up req (a + 1) ?h))" by blast
  have "trace (fst (callTranslationAPI_limited cfg up req a w)) =
        trace w @ ([Invoke a, Request a (count (semaphore w) - 1) req,
            Backoff a (count (semaphore w) - 1) (cfg_delay cfg a),
            Invoke (a + 1), Released a (count (semaphore w) - 1)] @ rest)"
    unfolding eq tr trh by simp
  then have "new_events w (fst (callTranslationAPI_limited cfg up req a w)) =
        [Invoke a, Request a (count (semaphore w) - 1) req,
            Backoff a (count (semaphore w) - 1) (cfg_delay cfg a),
            Invoke (a + 1), Released a (count (semaphore w) - 1)] @ rest"
    by (rule new_events_append)
  moreover have "\<forall>ev \<in> set rest. holds_one (count (semaphore w) - 1) req (a + 1) ev"
    using one unfolding semh by simp
  moreover have "semaphore (fst (callTranslationAPI_limited cfg up req a w)) = semaphore w"
    unfolding eq sm semh by simp
  ultimately show ?thesis using snt st unfolding eq by blast
qed

lemma call_limited_no_retry:
  assumes "0 < count (semaphore w)" and "tasks (semaphore w) = []"
    and "respond up (sent (trace w)) = Reject e"
    and "cfg_retries cfg \<le> a \<or> \<not> cfg_retryable cfg e"
  shows "new_events w (fst (callTranslationAPI_limited cfg up req a w)) =
           [Invoke a, Request a (count (semaphore w) - 1) req, Released a (count (semaphore w))] \<and>
         semaphore (fst (callTranslationAPI_limited cfg up req a w)) = semaphore w \<and>
         snd (callTranslationAPI_limited cfg up req a w) = Thrown e"
proof -
  let ?w = "w\<lparr>semaphore := (semaphore w)\<lparr>count := count (semaphore w) - 1\<rparr>,
              trace := trace w @ [Invoke a]\<rparr>"
  have free: "tasks (semaphore ?w) = []" using assms(2) by simp
  have same: "sent (trace ?w) = sent (trace w)" by (simp add: sent_def)
  have rej: "respond up (sent (trace ?w)) = Reject e" unfolding same by (rule assms(3))
  have eq: "callTranslationAPI_limited cfg up req a w =
            (finally_release a (send up req a ?w), Thrown e)"
    unfolding call_limited_free [OF assms(1)] by (rule attempt_body_throw [OF rej assms(4)])
  have "trace (finally_release a (send up req a ?w)) =
        trace w @ [Invoke a, Request a (count (semaphore w) - 1) req, Released a (count (semaphore w))]"
    unfolding trace_settle [OF free] by simp
  then have "new_events w (finally_release a (send up req a ?w)) =
        [Invoke a, Request a (count (semaphore w) - 1) req, Released a (count (semaphore w))]"
    by (rule new_events_append)
  moreover have "semaphore (finally_release a (send up req a ?w)) = semaphore w"
    unfolding semaphore_settle [OF free] by simp
  ultimately show ?thesis unfolding eq by simp
qed



section \<open>Properties of the concurrent calls\<close>

lemma held_update:
  "j < length ps \<Longrightarrow>
   held (ps[j := p]) = held ps - holds (ps ! j) + holds p"
proof (induction ps arbitrary: j)
  case Nil
  then show ?case by simp
next
  case (Cons q ps)
  then show ?case by (cases j) (auto simp: held_def)
qed

lemma work_update:
  "j < length ps \<Longrightarrow> work R (ps[j := p]) + effort R (ps ! j) = work R ps + effort R p"
proof (induction ps arbitrary: j)
  case Nil
  then show ?case by simp
next
  case (Cons q ps)
  then show ?case by (cases j) (auto simp: work_def)
qed


lemma length_phases_go [simp]: "length (phases (go j a s)) = length (phases s)"
  by (simp add: go_def)

lemma sound_queue:
  assumes "sound n s" and "tasks (permits s) = h # t"
  shows "h < length (phases s) \<and> (\<exists>b. phases s ! h = Queued b) \<and> h \<notin> set t \<and> distinct t \<and>
         count (permits s) = 0"
proof -
  from assms have "h \<in> set (tasks (permits s))" by simp
  with assms(1) have "h < length (phases s) \<and> waiting (phases s ! h)" by (simp add: sound_def)
  moreover have "waiting p \<Longrightarrow> \<exists>b. p = Queued b" for p :: "'r phase" by (cases p) auto
  moreover from assms have "h \<notin> set t \<and> distinct t \<and> count (permits s) = 0"
    by (auto simp: sound_def)
  ultimately show ?thesis by blast
qed

lemma sound_not_queued:
  assumes "sound n s" and "\<not> waiting (phases s ! j)"
  shows "j \<notin> set (tasks (permits s))"
  using assms by (auto simp: sound_def)

lemma sound_free:
  assumes "sound n s" and "0 < count (permits s)"
  shows "tasks (permits s) = []"
  using assms by (auto simp: sound_def)

lemma advance_start_go:
  assumes "j < length (phases s)" and "phases s ! j = Unstarted" and "0 < count (permits s)"
  shows "advance cfg answer j s =
         s\<lparr>permits := (permits s)\<lparr>count := count (permits s) - 1\<rparr>,
           phases := (phases s)[j := InFlight 0], requests := requests s @ [(j, 0)]\<rparr>"
  using assms by (simp add: advance_def invoke_def acquire_def go_def)

lemma advance_start_wait:
  assumes "j < length (phases s)" and "phases s ! j = Unstarted" and "\<not> 0 < count (permits s)"
  shows "advance cfg answer j s =
         s\<lparr>permits := (permits s)\<lparr>tasks := tasks (permits s) @ [j]\<rparr>,
           phases := (phases s)[j := Queued 0]\<rparr>"
  using assms by (simp add: advance_def invoke_def acquire_def)

lemma advance_verdict:
  assumes "j < length (phases s)" and "phases s ! j = InFlight a"
    and "verdict cfg (answer j a) a = Some r"
  shows "advance cfg answer j s = settle j r s"
  using assms by (auto simp: advance_def verdict_def split: outcome.splits if_splits)

lemma advance_backoff:
  assumes "j < length (phases s)" and "phases s ! j = InFlight a"
    and "verdict cfg (answer j a) a = None"
  shows "advance cfg answer j s = s\<lparr>phases := (phases s)[j := Sleeping a]\<rparr>"
  using assms by (auto simp: advance_def verdict_def split: outcome.splits if_splits)

lemma settle_free:
  assumes "tasks (permits s) = []"
  shows "settle j r s =
         s\<lparr>permits := (permits s)\<lparr>count := count (permits s) + 1\<rparr>,
           phases := (phases s)[j := Finished r]\<rparr>"
  using assms by (simp add: settle_def leave_def release_def resume_def Let_def)

lemma settle_wake:
  assumes "tasks (permits s) = h # t" and "count (permits s) = 0" and "h < length (phases s)"
    and "phases s ! h = Queued b" and "h \<noteq> j"
  shows "settle j r s =
         s\<lparr>permits := (permits s)\<lparr>tasks := t\<rparr>,
           phases := (phases s)[j := Finished r, h := InFlight b],
           requests := requests s @ [(h, b)]\<rparr>"
  using assms by (simp add: settle_def leave_def release_def resume_def Let_def go_def)

lemma advance_retry_go:
  assumes "j < length (phases s)" and "phases s ! j = Sleeping a" and "tasks (permits s) = []"
  shows "advance cfg answer j s =
         s\<lparr>phases := (phases s)[j := InFlight (a + 1)], requests := requests s @ [(j, a + 1)]\<rparr>"
  using assms
  by (simp add: advance_def invoke_def acquire_def leave_def release_def resume_def Let_def go_def)

lemma advance_retry_wait:
  assumes "j < length (phases s)" and "phases s ! j = Sleeping a"
    and "tasks (permits s) = h # t" and "count (permits s) = 0" and "h < length (phases s)"
    and "phases s ! h = Queued b" and "h \<noteq> j"
  shows "advance cfg answer j s =
         s\<lparr>permits := (permits s)\<lparr>tasks := t @ [j]\<rparr>,
           phases := (phases s)[j := Queued (a + 1), h := InFlight b],
           requests := requests s @ [(h, b)]\<rparr>"
  using assms
  by (simp add: advance_def invoke_def acquire_def leave_def release_def resume_def Let_def go_def)


lemma advance_idle:
  assumes "j < length (phases s) \<longrightarrow> \<not> can_step (phases s ! j)"
  shows "advance cfg answer j s = s"
  using assms by (cases "phases s ! j") (auto simp: advance_def)

lemma advance_cases [consumes 1, case_names idle start_go start_wait finish_free finish_wake
    backoff retry_go retry_wait]:
  assumes "sound n s"
  obtains "advance cfg answer j s = s" and "j < length (phases s) \<longrightarrow> \<not> can_step (phases s ! j)"
  | "j < length (phases s)" and "phases s ! j = Unstarted" and "0 < count (permits s)"
      and "tasks (permits s) = []"
      and "advance cfg answer j s =
         s\<lparr>permits := (permits s)\<lparr>count := count (permits s) - 1\<rparr>,
           phases := (phases s)[j := InFlight 0], requests := requests s @ [(j, 0)]\<rparr>"
  | "j < length (phases s)" and "phases s ! j = Unstarted" and "count (permits s) = 0"
      and "advance cfg answer j s =
         s\<lparr>permits := (permits s)\<lparr>tasks := tasks (permits s) @ [j]\<rparr>,
           phases := (phases s)[j := Queued 0]\<rparr>"
  | a r where "j < length (phases s)" and "phases s ! j = InFlight a"
      and "verdict cfg (answer j a) a = Some r" and "tasks (permits s) = []"
      and "advance cfg answer j s =
         s\<lparr>permits := (permits s)\<lparr>count := count (permits s) + 1\<rparr>,
           phases := (phases s)[j := Finished r]\<rparr>"
  | a r h t b where "j < length (phases s)" and "phases s ! j = InFlight a"
      and "verdict cfg (answer j a) a = Some r" and "tasks (permits s) = h # t"
      and "count (permits s) = 0" and "h < length (phases s)" and "phases s ! h = Queued b"
      and "h \<noteq> j" and "h \<notin> set t" and "distinct t"
      and "advance cfg answer j s =
         s\<lparr>permits := (permits s)\<lparr>tasks := t\<rparr>,
           phases := (phases s)[j := Finished r, h := InFlight b],
           requests := requests s @ [(h, b)]\<rparr>"
  | a where "j < length (phases s)" and "phases s ! j = InFlight a"
      and "verdict cfg (answer j a) a = None"
      and "advance cfg answer j s = s\<lparr>phases := (phases s)[j := Sleeping a]\<rparr>"
  | a where "j < length (phases s)" and "phases s ! j = Sleeping a" and "tasks (permits s) = []"
      and "advance cfg answer j s =
         s\<lparr>phases := (phases s)[j := InFlight (a + 1)], requests := requests s @ [(j, a + 1)]\<rparr>"
  | a h t b where "j < length (phases s)" and "phases s ! j = Sleeping a"
      and "tasks (permits s) = h # t"
      and "count (permits s) = 0" and "h < length (phases s)" and "phases s ! h = Queued b"
      and "h \<noteq> j" and "h \<notin> set t" and "distinct t"
      and "advance cfg answer j s =
         s\<lparr>permits := (permits s)\<lparr>tasks := t @ [j]\<rparr>,
           phases := (phases s)[j := Queued (a + 1), h := InFlight b],
           requests := requests s @ [(h, b)]\<rparr>"
proof (cases "j < length (phases s)")
  case False
  then show ?thesis using that(1) advance_idle [of j s cfg answer] by simp
next
  case len: True
  show ?thesis
  proof (cases "phases s ! j")
    case Unstarted
    show ?thesis
    proof (cases "0 < count (permits s)")
      case True
      from that(2) [OF len Unstarted True sound_free [OF assms True]
          advance_start_go [OF len Unstarted True]]
      show ?thesis .
    next
      case False
      with assms have "count (permits s) = 0" by (simp add: sound_def)
      from that(3) [OF len Unstarted this advance_start_wait [OF len Unstarted False]]
      show ?thesis .
    qed
  next
    case (Queued a)
    then show ?thesis using that(1) advance_idle [of j s cfg answer] by simp
  next
    case (Finished r)
    then show ?thesis using that(1) advance_idle [of j s cfg answer] by simp
  next
    case (InFlight a)
    show ?thesis
    proof (cases "verdict cfg (answer j a) a")
      case None
      from that(6) [OF len InFlight None advance_backoff [where answer = answer, OF len InFlight None]]
      show ?thesis .
    next
      case (Some r)
      note adv = advance_verdict [where answer = answer, OF len InFlight Some]
      show ?thesis
      proof (cases "tasks (permits s)")
        case Nil
        from that(4) [OF len InFlight Some Nil] adv settle_free [OF Nil, of j r]
        show ?thesis by simp
      next
        case (Cons h t)
        from sound_queue [OF assms Cons] obtain b where
          h: "h < length (phases s)" and q: "phases s ! h = Queued b" and nt: "h \<notin> set t"
          and dt: "distinct t" and c0: "count (permits s) = 0" by blast
        from q InFlight have hj: "h \<noteq> j" by auto
        from that(5) [OF len InFlight Some Cons c0 h q hj nt dt] adv
          settle_wake [OF Cons c0 h q hj, of r]
        show ?thesis by simp
      qed
    qed
  next
    case (Sleeping a)
    show ?thesis
    proof (cases "tasks (permits s)")
      case Nil
      from that(7) [OF len Sleeping Nil advance_retry_go [OF len Sleeping Nil]]
      show ?thesis .
    next
      case (Cons h t)
      from sound_queue [OF assms Cons] obtain b where
        h: "h < length (phases s)" and q: "phases s ! h = Queued b" and nt: "h \<notin> set t"
        and dt: "distinct t" and c0: "count (permits s) = 0" by blast
      from q Sleeping have hj: "h \<noteq> j" by auto
      from that(8) [OF len Sleeping Cons c0 h q hj nt dt
          advance_retry_wait [OF len Sleeping Cons c0 h q hj]]
      show ?thesis .
    qed
  qed
qed

lemma soundI:
  assumes "0 \<le> count (permits s)" and "count (permits s) + held (phases s) = n"
    and "distinct (tasks (permits s))"
    and "\<And>k. k \<in> set (tasks (permits s)) \<longleftrightarrow> k < length (phases s) \<and> waiting (phases s ! k)"
    and "tasks (permits s) \<noteq> [] \<Longrightarrow> count (permits s) = 0"
  shows "sound n s"
  using assms by (simp add: sound_def)

lemma soundD:
  assumes "sound n s"
  shows "0 \<le> count (permits s)" and "count (permits s) + held (phases s) = n"
    and "distinct (tasks (permits s))"
    and "\<And>k. k \<in> set (tasks (permits s)) \<longleftrightarrow> k < length (phases s) \<and> waiting (phases s ! k)"
    and "tasks (permits s) \<noteq> [] \<Longrightarrow> count (permits s) = 0"
  using assms by (simp_all add: sound_def)

lemma sound_start_go:
  assumes "sound n s" and "j < length (phases s)" and "phases s ! j = Unstarted"
    and "0 < count (permits s)"
  shows "sound n (s\<lparr>permits := (permits s)\<lparr>count := count (permits s) - 1\<rparr>,
           phases := (phases s)[j := InFlight 0], requests := requests s @ [(j, 0)]\<rparr>)"
proof (rule soundI)
  note d = soundD [OF assms(1)]
  let ?s = "s\<lparr>permits := (permits s)\<lparr>count := count (permits s) - 1\<rparr>,
           phases := (phases s)[j := InFlight 0], requests := requests s @ [(j, 0)]\<rparr>"
  show "0 \<le> count (permits ?s)" using assms(4) by simp
  show "count (permits ?s) + held (phases ?s) = n"
    using d(2) assms(2,3) by (simp add: held_update)
  show "distinct (tasks (permits ?s))" using d(3) by simp
  show "k \<in> set (tasks (permits ?s)) \<longleftrightarrow> k < length (phases ?s) \<and> waiting (phases ?s ! k)" for k
    using d(4) [of k] assms(2,3) by (cases "k = j") simp_all
  show "tasks (permits ?s) \<noteq> [] \<Longrightarrow> count (permits ?s) = 0"
    using d(5) assms(4) by simp
qed

lemma sound_start_wait:
  assumes "sound n s" and "j < length (phases s)" and "phases s ! j = Unstarted"
    and "count (permits s) = 0"
  shows "sound n (s\<lparr>permits := (permits s)\<lparr>tasks := tasks (permits s) @ [j]\<rparr>,
           phases := (phases s)[j := Queued 0]\<rparr>)"
proof (rule soundI)
  note d = soundD [OF assms(1)]
  let ?s = "s\<lparr>permits := (permits s)\<lparr>tasks := tasks (permits s) @ [j]\<rparr>,
           phases := (phases s)[j := Queued 0]\<rparr>"
  have nq: "j \<notin> set (tasks (permits s))" using d(4) [of j] assms(3) by simp
  show "0 \<le> count (permits ?s)" using assms(4) by simp
  show "count (permits ?s) + held (phases ?s) = n"
    using d(2) assms(2,3) by (simp add: held_update)
  show "distinct (tasks (permits ?s))" using d(3) nq by simp
  show "k \<in> set (tasks (permits ?s)) \<longleftrightarrow> k < length (phases ?s) \<and> waiting (phases ?s ! k)" for k
    using d(4) [of k] assms(2,3) by (cases "k = j") simp_all
  show "tasks (permits ?s) \<noteq> [] \<Longrightarrow> count (permits ?s) = 0"
    using assms(4) by simp
qed

lemma sound_finish_free:
  assumes "sound n s" and "j < length (phases s)" and "phases s ! j = InFlight a"
    and "tasks (permits s) = []"
  shows "sound n (s\<lparr>permits := (permits s)\<lparr>count := count (permits s) + 1\<rparr>,
           phases := (phases s)[j := Finished r]\<rparr>)"
proof (rule soundI)
  note d = soundD [OF assms(1)]
  let ?s = "s\<lparr>permits := (permits s)\<lparr>count := count (permits s) + 1\<rparr>,
           phases := (phases s)[j := Finished r]\<rparr>"
  show "0 \<le> count (permits ?s)" using d(1) by simp
  show "count (permits ?s) + held (phases ?s) = n"
    using d(2) assms(2,3) by (simp add: held_update)
  show "distinct (tasks (permits ?s))" using d(3) by simp
  show "k \<in> set (tasks (permits ?s)) \<longleftrightarrow> k < length (phases ?s) \<and> waiting (phases ?s ! k)" for k
    using d(4) [of k] assms(2,3) by (cases "k = j") simp_all
  show "tasks (permits ?s) \<noteq> [] \<Longrightarrow> count (permits ?s) = 0"
    using assms(4) by simp
qed

lemma sound_backoff:
  assumes "sound n s" and "j < length (phases s)" and "phases s ! j = InFlight a"
  shows "sound n (s\<lparr>phases := (phases s)[j := Sleeping a]\<rparr>)"
proof (rule soundI)
  note d = soundD [OF assms(1)]
  let ?s = "s\<lparr>phases := (phases s)[j := Sleeping a]\<rparr>"
  show "0 \<le> count (permits ?s)" using d(1) by simp
  show "count (permits ?s) + held (phases ?s) = n"
    using d(2) assms(2,3) by (simp add: held_update)
  show "distinct (tasks (permits ?s))" using d(3) by simp
  show "k \<in> set (tasks (permits ?s)) \<longleftrightarrow> k < length (phases ?s) \<and> waiting (phases ?s ! k)" for k
    using d(4) [of k] assms(2,3) by (cases "k = j") simp_all
  show "tasks (permits ?s) \<noteq> [] \<Longrightarrow> count (permits ?s) = 0"
    using d(5) by simp
qed

lemma sound_retry_go:
  assumes "sound n s" and "j < length (phases s)" and "phases s ! j = Sleeping a"
  shows "sound n (s\<lparr>phases := (phases s)[j := InFlight (a + 1)],
           requests := requests s @ [(j, a + 1)]\<rparr>)"
proof (rule soundI)
  note d = soundD [OF assms(1)]
  let ?s = "s\<lparr>phases := (phases s)[j := InFlight (a + 1)],
           requests := requests s @ [(j, a + 1)]\<rparr>"
  show "0 \<le> count (permits ?s)" using d(1) by simp
  show "count (permits ?s) + held (phases ?s) = n"
    using d(2) assms(2,3) by (simp add: held_update)
  show "distinct (tasks (permits ?s))" using d(3) by simp
  show "k \<in> set (tasks (permits ?s)) \<longleftrightarrow> k < length (phases ?s) \<and> waiting (phases ?s ! k)" for k
    using d(4) [of k] assms(2,3) by (cases "k = j") simp_all
  show "tasks (permits ?s) \<noteq> [] \<Longrightarrow> count (permits ?s) = 0"
    using d(5) by simp
qed


lemma sound_finish_wake:
  assumes "sound n s" and "j < length (phases s)" and "phases s ! j = InFlight a"
    and "tasks (permits s) = h # t" and "count (permits s) = 0" and "h < length (phases s)"
    and "phases s ! h = Queued b" and "h \<noteq> j"
  shows "sound n (s\<lparr>permits := (permits s)\<lparr>tasks := t\<rparr>,
           phases := (phases s)[j := Finished r, h := InFlight b],
           requests := requests s @ [(h, b)]\<rparr>)"
proof (rule soundI)
  note d = soundD [OF assms(1)]
  let ?s = "s\<lparr>permits := (permits s)\<lparr>tasks := t\<rparr>,
           phases := (phases s)[j := Finished r, h := InFlight b],
           requests := requests s @ [(h, b)]\<rparr>"
  have ht: "h \<notin> set t" and dt: "distinct t" using d(3) assms(4) by simp_all
  have jt: "j \<notin> set t" using d(4) [of j] assms(3,4) by simp
  show "0 \<le> count (permits ?s)" using assms(5) by simp
  show "count (permits ?s) + held (phases ?s) = n"
    using d(2) assms(2,3,6,7,8) by (simp add: held_update)
  show "distinct (tasks (permits ?s))" using dt by simp
  show "k \<in> set (tasks (permits ?s)) \<longleftrightarrow> k < length (phases ?s) \<and> waiting (phases ?s ! k)" for k
  proof (cases "k = h")
    case True
    with ht assms(6) show ?thesis by simp
  next
    case False
    show ?thesis
    proof (cases "k = j")
      case True
      with jt assms(2,8) show ?thesis by simp
    next
      case kj: False
      with False d(4) [of k] assms(4) show ?thesis by simp
    qed
  qed
  show "tasks (permits ?s) \<noteq> [] \<Longrightarrow> count (permits ?s) = 0"
    using assms(5) by simp
qed

lemma sound_retry_wait:
  assumes "sound n s" and "j < length (phases s)" and "phases s ! j = Sleeping a"
    and "tasks (permits s) = h # t" and "count (permits s) = 0" and "h < length (phases s)"
    and "phases s ! h = Queued b" and "h \<noteq> j"
  shows "sound n (s\<lparr>permits := (permits s)\<lparr>tasks := t @ [j]\<rparr>,
           phases := (phases s)[j := Queued (a + 1), h := InFlight b],
           requests := requests s @ [(h, b)]\<rparr>)"
proof (rule soundI)
  note d = soundD [OF assms(1)]
  let ?s = "s\<lparr>permits := (permits s)\<lparr>tasks := t @ [j]\<rparr>,
           phases := (phases s)[j := Queued (a + 1), h := InFlight b],
           requests := requests s @ [(h, b)]\<rparr>"
  have ht: "h \<notin> set t" and dt: "distinct t" using d(3) assms(4) by simp_all
  have jt: "j \<notin> set t" using d(4) [of j] assms(3,4) by simp
  show "0 \<le> count (permits ?s)" using assms(5) by simp
  show "count (permits ?s) + held (phases ?s) = n"
    using d(2) assms(2,3,6,7,8) by (simp add: held_update)
  show "distinct (tasks (permits ?s))" using dt jt by simp
  show "k \<in> set (tasks (permits ?s)) \<longleftrightarrow> k < length (phases ?s) \<and> waiting (phases ?s ! k)" for k
  proof (cases "k = h")
    case True
    with ht assms(6,8) show ?thesis by simp
  next
    case False
    show ?thesis
    proof (cases "k = j")
      case True
      with assms(2,8) show ?thesis by simp
    next
      case kj: False
      with False d(4) [of k] assms(4) show ?thesis by simp
    qed
  qed
  show "tasks (permits ?s) \<noteq> [] \<Longrightarrow> count (permits ?s) = 0"
    using assms(5) by simp
qed

lemma sound_advance:
  assumes "sound n s"
  shows "sound n (advance cfg answer j s)"
  using assms
proof (cases rule: advance_cases [where cfg = cfg and answer = answer and j = j])
  case idle
  with assms show ?thesis by simp
next
  case start_go
  from sound_start_go [OF assms start_go(1,2,3)] show ?thesis unfolding start_go(5) .
next
  case start_wait
  from sound_start_wait [OF assms start_wait(1,2,3)] show ?thesis unfolding start_wait(4) .
next
  case (finish_free a r)
  from sound_finish_free [OF assms finish_free(1,2,4)] show ?thesis unfolding finish_free(5) .
next
  case (finish_wake a r h t b)
  from sound_finish_wake [OF assms finish_wake(1,2,4,5,6,7,8)]
  show ?thesis unfolding finish_wake(11) .
next
  case (backoff a)
  from sound_backoff [OF assms backoff(1,2)] show ?thesis unfolding backoff(4) .
next
  case (retry_go a)
  from sound_retry_go [OF assms retry_go(1,2)] show ?thesis unfolding retry_go(4) .
next
  case (retry_wait a h t b)
  from sound_retry_wait [OF assms retry_wait(1,2,3,4,5,6,7)]
  show ?thesis unfolding retry_wait(10) .
qed

lemma sound_new_pool:
  assumes "0 \<le> n"
  shows "sound n (new_pool n m)"
proof -
  have "held (replicate m (Unstarted :: 'a phase)) = 0" by (induction m) (simp_all add: held_def)
  with assms show ?thesis by (simp add: sound_def new_pool_def new_Semaphore_def)
qed

lemma verdict_None:
  assumes "verdict cfg answered a = None"
  shows "a < cfg_retries cfg \<and> (\<exists>e. answered = Reject e \<and> cfg_retryable cfg e)"
  using assms by (cases answered) (auto simp: verdict_def split: if_splits)

lemma verdict_retryable:
  assumes "answered = Reject e" and "cfg_retryable cfg e"
  shows "verdict cfg answered a = (if cfg_retries cfg \<le> a then Some (Thrown e) else None)"
  using assms by (simp add: verdict_def)

lemma in_enabled: "j \<in> set (enabled s) \<longleftrightarrow> j < length (phases s) \<and> can_step (phases s ! j)"
  by (auto simp: enabled_def)

lemma length_phases_advance [simp]:
  assumes "sound n s"
  shows "length (phases (advance cfg answer j s)) = length (phases s)"
  using assms
  by (cases rule: advance_cases [where cfg = cfg and answer = answer and j = j]) simp_all

lemma work_advance:
  assumes "sound n s" and "j \<in> set (enabled s)"
  shows "work (cfg_retries cfg) (phases (advance cfg answer j s)) < work (cfg_retries cfg) (phases s)"
proof -
  let ?R = "cfg_retries cfg"
  from assms(2) have len: "j < length (phases s)" and can: "can_step (phases s ! j)"
    by (simp_all add: in_enabled)
  from assms(1) show ?thesis
  proof (cases rule: advance_cases [where cfg = cfg and answer = answer and j = j])
    case idle
    with len can show ?thesis by simp
  next
    case start_go
    from work_update [OF len, of ?R "InFlight 0"] start_go(2)
    show ?thesis unfolding start_go(5) by simp
  next
    case start_wait
    from work_update [OF len, of ?R "Queued 0"] start_wait(2)
    show ?thesis unfolding start_wait(4) by simp
  next
    case (finish_free a r)
    from work_update [OF len, of ?R "Finished r"] finish_free(2)
    show ?thesis unfolding finish_free(5) by simp
  next
    case (finish_wake a r h t b)
    have h: "h < length ((phases s)[j := Finished r])" using finish_wake(6) by simp
    have q: "(phases s)[j := Finished r] ! h = Queued b" using finish_wake(7,8) by simp
    from work_update [OF len, of ?R "Finished r"] work_update [OF h, of ?R "InFlight b"]
      finish_wake(2) q
    show ?thesis unfolding finish_wake(11) by simp
  next
    case (backoff a)
    from verdict_None [OF backoff(3)] have "a < ?R" by simp
    with work_update [OF len, of ?R "Sleeping a"] backoff(2)
    show ?thesis unfolding backoff(4) by simp
  next
    case (retry_go a)
    from work_update [OF len, of ?R "InFlight (a + 1)"] retry_go(2)
    show ?thesis unfolding retry_go(4) by simp
  next
    case (retry_wait a h t b)
    have h: "h < length ((phases s)[j := Queued (a + 1)])" using retry_wait(5) by simp
    have q: "(phases s)[j := Queued (a + 1)] ! h = Queued b" using retry_wait(6,7) by simp
    from work_update [OF len, of ?R "Queued (a + 1)"] work_update [OF h, of ?R "InFlight b"]
      retry_wait(2) q
    show ?thesis unfolding retry_wait(10) by simp
  qed
qed

lemma held_idle:
  assumes "\<forall>p \<in> set ps. holds p = 0"
  shows "held ps = 0"
  using assms by (induction ps) (simp_all add: held_def)

lemma all_finished:
  assumes "sound n s" and "0 < n" and "enabled s = []" and "j < length (phases s)"
  shows "\<exists>r. phases s ! j = Finished r"
proof -
  note d = soundD [OF assms(1)]
  have idle: "\<not> can_step (phases s ! k)" if "k < length (phases s)" for k
    using assms(3) that in_enabled [of k s] by simp
  have "holds p = 0" if "p \<in> set (phases s)" for p
  proof -
    from that obtain k where "k < length (phases s)" and "p = phases s ! k"
      by (auto simp: in_set_conv_nth)
    with idle [of k] have "\<not> can_step p" by simp
    then show ?thesis by (cases p) simp_all
  qed
  then have "held (phases s) = 0" by (simp add: held_idle)
  with d(2) assms(2) have "0 < count (permits s)" by simp
  with d(5) have "tasks (permits s) = []" by auto
  with d(4) [of j] assms(4) have "\<not> waiting (phases s ! j)" by simp
  with idle [OF assms(4)] show ?thesis by (cases "phases s ! j") simp_all
qed

lemma effort_le_work: "j < length ps \<Longrightarrow> effort R (ps ! j) \<le> work R ps"
proof (induction ps arbitrary: j)
  case Nil
  then show ?case by simp
next
  case (Cons p ps)
  show ?case
  proof (cases j)
    case 0
    then show ?thesis by (simp add: work_def)
  next
    case (Suc k)
    with Cons.prems have "k < length ps" by simp
    from Cons.IH [OF this] Suc show ?thesis by (simp add: work_def)
  qed
qed

lemma enabled_work:
  assumes "j \<in> set (enabled s)"
  shows "0 < work R (phases s)"
proof -
  from assms have len: "j < length (phases s)" and can: "can_step (phases s ! j)"
    by (simp_all add: in_enabled)
  from can have "0 < effort R (phases s ! j)" by (cases "phases s ! j") simp_all
  with effort_le_work [OF len, of R] show ?thesis by simp
qed

lemma chosen_enabled: "enabled s \<noteq> [] \<Longrightarrow> chosen pick s \<in> set (enabled s)"
  by (simp add: chosen_def)

lemma run_all_Suc:
  "run_all cfg answer pick (Suc fuel) s =
     (if enabled s = [] then s
      else run_all cfg answer pick fuel (advance cfg answer (chosen pick s) s))"
  by (cases "enabled s") (simp_all add: chosen_def)

lemma run_all_sound:
  assumes "sound n s"
  shows "sound n (run_all cfg answer pick fuel s)"
  using assms
proof (induction fuel arbitrary: s)
  case 0
  then show ?case by simp
next
  case (Suc fuel)
  then show ?case unfolding run_all_Suc by (simp add: sound_advance)
qed

lemma run_all_length:
  assumes "sound n s"
  shows "length (phases (run_all cfg answer pick fuel s)) = length (phases s)"
  using assms
proof (induction fuel arbitrary: s)
  case 0
  then show ?case by simp
next
  case (Suc fuel)
  from Suc.IH [OF sound_advance [OF Suc.prems]] Suc.prems
  show ?case unfolding run_all_Suc by simp
qed

lemma run_all_done:
  assumes "sound n s" and "work (cfg_retries cfg) (phases s) \<le> fuel"
  shows "enabled (run_all cfg answer pick fuel s) = []"
  using assms
proof (induction fuel arbitrary: s)
  case 0
  show ?case
  proof (cases "enabled s")
    case Nil
    then show ?thesis by simp
  next
    case (Cons j js)
    then have "j \<in> set (enabled s)" by simp
    from enabled_work [OF this, of "cfg_retries cfg"] "0.prems"(2) show ?thesis by simp
  qed
next
  case (Suc fuel)
  show ?case
  proof (cases "enabled s = []")
    case True
    then show ?thesis unfolding run_all_Suc by simp
  next
    case False
    from work_advance [OF Suc.prems(1) chosen_enabled [OF False], of cfg answer pick] Suc.prems(2)
    have "work (cfg_retries cfg) (phases (advance cfg answer (chosen pick s) s)) \<le> fuel" by simp
    from Suc.IH [OF sound_advance [OF Suc.prems(1)] this] False
    show ?thesis unfolding run_all_Suc by simp
  qed
qed

lemma attempts_by_snoc:
  "attempts_by i (made @ [(j, a)]) = (if j = i then attempts_by i made @ [a] else attempts_by i made)"
  by (simp add: attempts_by_def)

lemma on_course_advance:
  assumes "sound n s" and "i < length (phases s)"
    and "\<forall>a. \<exists>e. answer i a = Reject e \<and> cfg_retryable cfg e"
    and "on_course (cfg_retries cfg) (answer i) (phases s ! i) (attempts_by i (requests s))"
  shows "on_course (cfg_retries cfg) (answer i) (phases (advance cfg answer j s) ! i)
           (attempts_by i (requests (advance cfg answer j s)))"
  using assms(1)
proof (cases rule: advance_cases [where cfg = cfg and answer = answer and j = j])
  case idle
  with assms(4) show ?thesis by simp
next
  case start_go
  with assms(2,4) show ?thesis
    by (cases "i = j") (simp_all add: attempts_by_snoc on_course_def)
next
  case start_wait
  with assms(2,4) show ?thesis
    by (cases "i = j") (simp_all add: on_course_def)
next
  case (finish_free a r)
  show ?thesis
  proof (cases "i = j")
    case False
    with finish_free assms(2,4) show ?thesis by simp
  next
    case True
    from assms(3) obtain e where e: "answer i a = Reject e" and re: "cfg_retryable cfg e" by blast
    from finish_free(3) verdict_retryable [OF e re, of a] True
    have "cfg_retries cfg \<le> a" and "r = Thrown e" by (simp_all split: if_splits)
    with assms(4) finish_free(2) True e have "a = cfg_retries cfg"
      and "attempts_by i (requests s) = [0..<cfg_retries cfg + 1]"
      and "answer i (cfg_retries cfg) = Reject e"
      by (simp_all add: on_course_def)
    with finish_free(1,5) True \<open>r = Thrown e\<close> show ?thesis by (simp add: on_course_def)
  qed
next
  case (finish_wake a r h t b)
  show ?thesis
  proof (cases "i = j")
    case False
    show ?thesis
    proof (cases "i = h")
      case True
      with finish_wake assms(2,4) show ?thesis
        by (simp add: attempts_by_snoc on_course_def)
    next
      case ih: False
      with False finish_wake assms(2,4) show ?thesis by (simp add: attempts_by_snoc)
    qed
  next
    case True
    from assms(3) obtain e where e: "answer i a = Reject e" and re: "cfg_retryable cfg e" by blast
    from finish_wake(3) verdict_retryable [OF e re, of a] True
    have "cfg_retries cfg \<le> a" and "r = Thrown e" by (simp_all split: if_splits)
    with assms(4) finish_wake(2) True e have "a = cfg_retries cfg"
      and "attempts_by i (requests s) = [0..<cfg_retries cfg + 1]"
      and "answer i (cfg_retries cfg) = Reject e"
      by (simp_all add: on_course_def)
    with finish_wake(1,6,8,11) True \<open>r = Thrown e\<close> show ?thesis
      by (simp add: on_course_def attempts_by_snoc)
  qed
next
  case (backoff a)
  from verdict_None [OF backoff(3)] have "a < cfg_retries cfg" by simp
  with backoff assms(2,4) show ?thesis
    by (cases "i = j") (simp_all add: on_course_def)
next
  case (retry_go a)
  with assms(2,4) show ?thesis
    by (cases "i = j") (simp_all add: attempts_by_snoc on_course_def)
next
  case (retry_wait a h t b)
  show ?thesis
  proof (cases "i = j")
    case True
    with retry_wait assms(2,4) show ?thesis
      by (simp add: attempts_by_snoc on_course_def)
  next
    case False
    show ?thesis
    proof (cases "i = h")
      case True
      with retry_wait assms(2,4) show ?thesis
        by (simp add: attempts_by_snoc on_course_def)
    next
      case ih: False
      with False retry_wait assms(2,4) show ?thesis by (simp add: attempts_by_snoc)
    qed
  qed
qed

lemma run_all_on_course:
  assumes "sound n s" and "i < length (phases s)"
    and "\<forall>a. \<exists>e. answer i a = Reject e \<and> cfg_retryable cfg e"
    and "on_course (cfg_retries cfg) (answer i) (phases s ! i) (attempts_by i (requests s))"
  shows "on_course (cfg_retries cfg) (answer i) (phases (run_all cfg answer pick fuel s) ! i)
           (attempts_by i (requests (run_all cfg answer pick fuel s)))"
  using assms(1,2,4)
proof (induction fuel arbitrary: s)
  case 0
  then show ?case by simp
next
  case (Suc fuel)
  show ?case
  proof (cases "enabled s = []")
    case True
    with Suc.prems show ?thesis unfolding run_all_Suc by simp
  next
    case False
    let ?s = "advance cfg answer (chosen pick s) s"
    have "i < length (phases ?s)" using Suc.prems(1,2) by simp
    from Suc.IH [OF sound_advance [OF Suc.prems(1)] this
        on_course_advance [where answer = answer, OF Suc.prems(1,2) assms(3) Suc.prems(3)]] False
    show ?thesis unfolding run_all_Suc by simp
  qed
qed

lemma work_new_pool: "work R (phases (new_pool n m)) = m * (2 * R + 2)"
  by (induction m) (simp_all add: new_pool_def work_def)

lemma pool_exhaust:
  assumes "\<forall>a. \<exists>e. answer i a = Reject e \<and> cfg_retryable cfg e" and "i < m" and "0 < n"
    and "m * (2 * cfg_retries cfg + 2) \<le> fuel"
  shows "\<exists>e. attempts_by i (requests (run_all cfg answer pick fuel (new_pool n m))) =
               [0..<cfg_retries cfg + 1] \<and>
             answer i (cfg_retries cfg) = Reject e \<and>
             phases (run_all cfg answer pick fuel (new_pool n m)) ! i = Finished (Thrown e)"
proof -
  let ?s = "new_pool n m :: 'a pool"
  let ?f = "run_all cfg answer pick fuel ?s"
  have s: "sound n ?s" using assms(3) by (simp add: sound_new_pool)
  have len: "i < length (phases ?s)" using assms(2) by (simp add: new_pool_def)
  have "on_course (cfg_retries cfg) (answer i) (phases ?s ! i) (attempts_by i (requests ?s))"
    using assms(2) by (simp add: new_pool_def on_course_def attempts_by_def)
  from run_all_on_course [where answer = answer, OF s len assms(1) this]
  have oc: "on_course (cfg_retries cfg) (answer i) (phases ?f ! i) (attempts_by i (requests ?f))" .
  have "work (cfg_retries cfg) (phases ?s) \<le> fuel" using assms(4) by (simp add: work_new_pool)
  from run_all_done [OF s this] have "enabled ?f = []" .
  moreover have "i < length (phases ?f)" using len by (simp add: run_all_length [OF s])
  ultimately obtain r where "phases ?f ! i = Finished r"
    using all_finished [OF run_all_sound [OF s] assms(3)] by blast
  with oc show ?thesis by (auto simp: on_course_def)
qed

text \<open>
  A run of four calls with three permits in which every request fails with status 503. After
  four steps the first three calls have their requests in flight and the fourth is queued.
  Then the response of the first call arrives and its timer fires: its retry queues behind the
  fourth call, and the release of its \<^verbatim>\<open>finally\<close> block hands the permit to the fourth call,
  which sends its request.
\<close>

lemma queued_call_is_resumed:
  "run_all free_config all_unavailable taking_turns 4 (new_pool MAX_CONCURRENT_REQUESTS 4) =
     \<lparr>permits = \<lparr>count = 0, tasks = [3]\<rparr>,
      phases = [InFlight 0, InFlight 0, InFlight 0, Queued 0],
      requests = [(0, 0), (1, 0), (2, 0)]\<rparr> \<and>
   run_all free_config all_unavailable taking_turns 2
     \<lparr>permits = \<lparr>count = 0, tasks = [3]\<rparr>,
      phases = [InFlight 0, InFlight 0, InFlight 0, Queued 0],
      requests = [(0, 0), (1, 0), (2, 0)]\<rparr> =
     \<lparr>permits = \<lparr>count = 0, tasks = [0]\<rparr>,
      phases = [Queued 1, InFlight 0, InFlight 0, InFlight 0],
      requests = [(0, 0), (1, 0), (2, 0), (3, 0)]\<rparr>"
  by code_simp

section \<open>Properties of the translation functions\<close>

lemma invocations_append [simp]: "invocations (xs @ ys) = invocations xs + invocations ys"
  by (simp add: invocations_def)

lemma trace_finally_release:
  "\<exists>f. trace (finally_release a w) = trace w @ [Released a f]"
  by (simp add: finally_release_def split: prod.splits)

lemma invocations_finally_release [simp]:
  "invocations (trace (finally_release a w)) = invocations (trace w)"
  using trace_finally_release [of a w] by (auto simp: invocations_def)

lemma invocations_send [simp]: "invocations (trace (send up req a w)) = invocations (trace w)"
  by (simp add: send_def invocations_def)

lemma invocations_sleep [simp]: "invocations (trace (sleep cfg up n a w)) = invocations (trace w)"
  by (simp add: sleep_def invocations_def)


lemma invocations_enter_0:
  "enter 0 w = (w', got) \<Longrightarrow> invocations (trace w') = Suc (invocations (trace w))"
  by (auto simp: enter_def invocations_def split: prod.splits)



lemma ttl_cleanExpired [simp]: "ttl (cleanExpired now c) = ttl c"
  by (simp add: cleanExpired_def)

lemma ttl_evictOldest [simp]: "ttl (evictOldest c) = ttl c"
  by (simp add: evictOldest_def split: option.splits)

lemma ttl_cache_set [simp]: "ttl (cache_set now key v c) = ttl c"
  by (simp add: cache_set_def Let_def)

lemma ttl_cache_get [simp]: "ttl (fst (cache_get now key c)) = ttl c"
  by (simp add: cache_get_def split: option.splits)













lemma snd_cache_get:
  "snd (cache_get now key c) =
     (case map_of (cache c) key of
        None \<Rightarrow> None
      | Some e \<Rightarrow> if now - entry_timestamp e > ttl c then None else Some (entry_value e))"
  by (simp add: cache_get_def split: option.splits)

lemma fst_cache_get:
  "fst (cache_get now key c) = c \<or>
   (snd (cache_get now key c) = None \<and>
    fst (cache_get now key c) = c\<lparr>cache := AList.delete key (cache c)\<rparr>)"
  by (simp add: cache_get_def split: option.splits)

lemma cache_get_again:
  "snd (cache_get now key' (fst (cache_get now key c))) = snd (cache_get now key' c)"
proof -
  from fst_cache_get [of now key c] show ?thesis
  proof
    assume "fst (cache_get now key c) = c"
    then show ?thesis by simp
  next
    assume a: "snd (cache_get now key c) = None \<and>
      fst (cache_get now key c) = c\<lparr>cache := AList.delete key (cache c)\<rparr>"
    show ?thesis
    proof (cases "key' = key")
      case True
      have "snd (cache_get now key (c\<lparr>cache := AList.delete key (cache c)\<rparr>)) = None"
        by (simp add: snd_cache_get AList.delete_conv')
      with a True show ?thesis by simp
    next
      case False
      have "snd (cache_get now key' (c\<lparr>cache := AList.delete key (cache c)\<rparr>)) =
            snd (cache_get now key' c)"
        using False by (simp add: snd_cache_get cong: option.case_cong)
      with a show ?thesis by simp
    qed
  qed
qed

lemma clock_enter [simp]: "clock (fst (enter a w)) = clock w"
  by (simp add: enter_def split: prod.splits)

lemma translate_start_miss:
  assumes "short_uncached_free targetLang sourceLang (clock w) c text"
  shows "translate_start targetLang sourceLang text (c, w) =
         (fst (cache_get (clock w) (generateCacheKey sourceLang targetLang (normalizeText text)) c),
          fst (enter 0 w))"
  using assms
  by (auto simp: translate_start_def short_uncached_free_def uncached_def
      split: prod.splits option.splits)

lemma translateMultiple_start_calls:
  assumes "\<forall>text \<in> set texts. short_uncached_free targetLang sourceLang (clock w) c text"
  shows "invocations (trace (snd (translateMultiple_start texts targetLang sourceLang (c, w)))) =
         invocations (trace w) + length texts"
  using assms
proof (induction texts arbitrary: c w)
  case Nil
  show ?case by (simp add: translateMultiple_start_def)
next
  case (Cons t texts)
  let ?c = "fst (cache_get (clock w) (generateCacheKey sourceLang targetLang (normalizeText t)) c)"
  let ?w = "fst (enter 0 w)"
  from Cons.prems have here: "short_uncached_free targetLang sourceLang (clock w) c t" by simp
  have rest: "\<forall>text \<in> set texts. short_uncached_free targetLang sourceLang (clock ?w) ?c text"
    using Cons.prems by (simp add: short_uncached_free_def cache_get_again)
  have "invocations (trace ?w) = Suc (invocations (trace w))"
    by (rule invocations_enter_0 [of w ?w "snd (enter 0 w)"]) simp
  with Cons.IH [OF rest] show ?case
    by (simp add: translateMultiple_start_def translate_start_miss [OF here])
qed











section \<open>Retries\<close>

text \<open>
  C5. In the free-translation client the calls of \<open>callTranslationAPI\<close> share the limiter.
  Take any number \<open>m\<close> of calls, any outcomes of their requests, and any order in which the
  responses arrive and the timers fire. A call all of whose requests fail with retryable
  failures sends exactly \<open>RETRIES + 1\<close> requests, those of the attempts
  \<open>0, ..., RETRIES\<close> in this order, waiting in the queue of the semaphore whenever its
  \<open>acquire\<close> finds no free permit, and then throws the failure of the last attempt. Every
  run ends: after \<open>m * (2 * RETRIES + 2)\<close> steps at the latest the call is over. In the
  client without limiter a call sends the same requests and throws the failure of the last
  attempt, whatever the state it starts in. The recursion is total: the model of the client
  without limiter is a function whose termination is proved with the measure
  \<open>RETRIES - attempt\<close>, and in a run of the concurrent calls the bound \<open>work\<close> on the
  steps that remain decreases with every step.
\<close>

theorem retries_exhausted:
  assumes "\<forall>a. \<exists>e. answer i a = Reject e \<and> isRetryable e" and "i < m"
    and "m * (2 * RETRIES + 2) \<le> fuel"
    and "\<forall>n. \<exists>e. respond up n = Reject e \<and> isRetryable e"
  shows "(\<exists>e. attempts_by i (requests (run_all free_config answer pick fuel
                  (new_pool MAX_CONCURRENT_REQUESTS m))) = [0..<RETRIES + 1] \<and>
             answer i RETRIES = Reject e \<and>
             phases (run_all free_config answer pick fuel (new_pool MAX_CONCURRENT_REQUESTS m)) ! i =
               Finished (Thrown e)) \<and>
         (\<exists>e. attempts_of (new_events w7 (fst (callTranslationAPI_p7 up req 0 w7))) = [0..<RETRIES + 1] \<and>
             respond up (sent (trace w7) + RETRIES) = Reject e \<and>
             snd (callTranslationAPI_p7 up req 0 w7) = Thrown e)"
proof
  have r: "\<forall>a. \<exists>e. answer i a = Reject e \<and> cfg_retryable free_config e"
    using assms(1) by (simp add: free_config_def)
  have n: "0 < MAX_CONCURRENT_REQUESTS" by (simp add: MAX_CONCURRENT_REQUESTS_def)
  have f: "m * (2 * cfg_retries free_config + 2) \<le> fuel"
    using assms(3) by (simp add: free_config_def)
  from pool_exhaust [where answer = answer, OF r assms(2) n f, of pick]
  show "\<exists>e. attempts_by i (requests (run_all free_config answer pick fuel
                  (new_pool MAX_CONCURRENT_REQUESTS m))) = [0..<RETRIES + 1] \<and>
             answer i RETRIES = Reject e \<and>
             phases (run_all free_config answer pick fuel (new_pool MAX_CONCURRENT_REQUESTS m)) ! i =
               Finished (Thrown e)"
    by (simp add: free_config_def)
next
  from p7_exhaust [OF assms(4), of 0 req w7]
  obtain rest e where "trace (fst (callTranslationAPI_p7 up req 0 w7)) = trace w7 @ rest"
    and "attempts_of rest = [0..<RETRIES + 1]"
    and "respond up (sent (trace w7) + (RETRIES - 0)) = Reject e"
    and "snd (callTranslationAPI_p7 up req 0 w7) = Thrown e" by auto
  then show "\<exists>e. attempts_of (new_events w7 (fst (callTranslationAPI_p7 up req 0 w7))) = [0..<RETRIES + 1] \<and>
             respond up (sent (trace w7) + RETRIES) = Reject e \<and>
             snd (callTranslationAPI_p7 up req 0 w7) = Thrown e"
    by (simp add: new_events_append)
qed

theorem retries_exhausted_witness:
  "(3::nat) < 4 \<and> 4 * (2 * RETRIES + 2) \<le> 48 \<and>
   attempts_by 3 (requests (run_all free_config all_unavailable taking_turns 48
     (new_pool MAX_CONCURRENT_REQUESTS 4))) = [0..<RETRIES + 1] \<and>
   phases (run_all free_config all_unavailable taking_turns 48
     (new_pool MAX_CONCURRENT_REQUESTS 4)) ! 3 = Finished (Thrown e503) \<and>
   attempts_of (new_events idle (fst (callTranslationAPI_p7 unavailable (axios_get hola) 0 idle))) =
     [0..<RETRIES + 1] \<and>
   snd (callTranslationAPI_p7 unavailable (axios_get hola) 0 idle) = Thrown e503"
proof -
  have h1: "\<forall>a. \<exists>e. all_unavailable 3 a = Reject e \<and> isRetryable e"
    by (simp add: all_unavailable_def e503_def status_or_500_def)
  have h2: "(3::nat) < 4" by simp
  have h3: "4 * (2 * RETRIES + 2) \<le> (48::nat)" by (simp add: RETRIES_def)
  have h4: "\<forall>n. \<exists>e. respond unavailable n = Reject e \<and> isRetryable e"
    by (simp add: unavailable_def e503_def status_or_500_def)
  from retries_exhausted [where answer = all_unavailable, OF h1 h2 h3 h4,
      of taking_turns idle "axios_get hola"]
  obtain e e' where a: "attempts_by 3 (requests (run_all free_config all_unavailable taking_turns 48
        (new_pool MAX_CONCURRENT_REQUESTS 4))) = [0..<RETRIES + 1]"
    and r: "all_unavailable 3 RETRIES = Reject e"
    and p: "phases (run_all free_config all_unavailable taking_turns 48
        (new_pool MAX_CONCURRENT_REQUESTS 4)) ! 3 = Finished (Thrown e)"
    and a7: "attempts_of (new_events idle (fst (callTranslationAPI_p7 unavailable (axios_get hola) 0 idle))) =
        [0..<RETRIES + 1]"
    and r7: "respond unavailable (sent (trace idle) + RETRIES) = Reject e'"
    and t7: "snd (callTranslationAPI_p7 unavailable (axios_get hola) 0 idle) = Thrown e'"
    by blast
  from r have "e = e503" by (simp add: all_unavailable_def)
  moreover from r7 have "e' = e503" by (simp add: unavailable_def)
  ultimately show ?thesis using a p a7 t7 h2 h3 by blast
qed




section \<open>Permits held during retries\<close>

text \<open>
  C10, as stated, fails. The retry is \<^verbatim>\<open>return callTranslationAPI(params, attempt + 1)\<close>
  without \<open>await\<close>, so the \<^verbatim>\<open>finally\<close> block of an attempt runs as soon as the retry has been
  started, not when the retry chain is over. With three permits, a first request that fails
  with status 503 and a second that succeeds: the permit of attempt 0 is released before the
  request of attempt 1 is sent, and that request sees two free permits, so the call holds one
  permit and not two.
\<close>

theorem retry_holds_one_permit:
  "trace (fst (callTranslationAPI (fails_once e503) hola 0 idle)) =
     [Invoke 0, Request 0 2 (axios_get hola), Backoff 0 2 500, Invoke 1, Released 0 2,
      Request 1 2 (axios_get hola), Released 1 3]"
  by code_simp

text \<open>
  C10, amended. The permit taken at the start of an attempt is held while the request of the
  attempt is in flight and during the backoff delay that follows, and it is released as soon
  as the retry has been invoked (after the synchronous part of the \<open>acquire\<close> of the retry),
  before the request of the retry is sent. For a call that starts with \<open>c > 0\<close> free permits
  and an empty queue, every request and every backoff of every later attempt therefore sees
  \<open>c - 1\<close> free permits: the call holds one permit, whatever the attempt number, and when it
  is over the semaphore is as it was before.
\<close>

theorem permit_released_when_retry_starts:
  assumes "0 < count (semaphore w)" and "tasks (semaphore w) = []" and "attempt < RETRIES"
    and "respond up (sent (trace w)) = Reject e" and "isRetryable e"
  shows "\<exists>rest. new_events w (fst (callTranslationAPI up params attempt w)) =
           [Invoke attempt, Request attempt (count (semaphore w) - 1) (axios_get params),
            Backoff attempt (count (semaphore w) - 1) (RETRY_DELAY * 2 ^ attempt),
            Invoke (attempt + 1), Released attempt (count (semaphore w) - 1)] @ rest \<and>
           (\<forall>ev \<in> set rest. holds_one (count (semaphore w) - 1) (axios_get params) (attempt + 1) ev) \<and>
           semaphore (fst (callTranslationAPI up params attempt w)) = semaphore w"
proof -
  have lt: "attempt < cfg_retries free_config" using assms(3) by (simp add: free_config_def)
  have r: "cfg_retryable free_config e" using assms(5) by (simp add: free_config_def)
  have d: "cfg_delay free_config attempt = RETRY_DELAY * 2 ^ attempt" by (simp add: free_config_def)
  from call_limited_retry_shape [OF assms(1,2) lt assms(4) r, of "axios_get params"]
  show ?thesis unfolding callTranslationAPI_def d by blast
qed

theorem permit_released_when_retry_starts_witness:
  "0 < count (semaphore idle) \<and> tasks (semaphore idle) = [] \<and> (0::nat) < RETRIES \<and>
   respond (fails_once e503) (sent (trace idle)) = Reject e503 \<and> isRetryable e503 \<and>
   take 5 (new_events idle (fst (callTranslationAPI (fails_once e503) hola 0 idle))) =
     [Invoke 0, Request 0 (count (semaphore idle) - 1) (axios_get hola),
      Backoff 0 (count (semaphore idle) - 1) (RETRY_DELAY * 2 ^ 0),
      Invoke (0 + 1), Released 0 (count (semaphore idle) - 1)] \<and>
   semaphore (fst (callTranslationAPI (fails_once e503) hola 0 idle)) = semaphore idle"
proof -
  have h1: "0 < count (semaphore idle)" and h2: "tasks (semaphore idle) = []"
    and h3: "(0::nat) < RETRIES"
    and h4: "respond (fails_once e503) (sent (trace idle)) = Reject e503"
    by (simp_all add: idle_def new_Semaphore_def MAX_CONCURRENT_REQUESTS_def RETRIES_def
        fails_once_def sent_def)
  have h5: "isRetryable e503" by (simp add: e503_def status_or_500_def)
  from permit_released_when_retry_starts [OF h1 h2 h3 h4 h5, of hola]
  obtain rest where
    ev: "new_events idle (fst (callTranslationAPI (fails_once e503) hola 0 idle)) =
           [Invoke 0, Request 0 (count (semaphore idle) - 1) (axios_get hola),
            Backoff 0 (count (semaphore idle) - 1) (RETRY_DELAY * 2 ^ 0),
            Invoke (0 + 1), Released 0 (count (semaphore idle) - 1)] @ rest"
    and sm: "semaphore (fst (callTranslationAPI (fails_once e503) hola 0 idle)) = semaphore idle"
    by blast
  have "take 5 (new_events idle (fst (callTranslationAPI (fails_once e503) hola 0 idle))) =
     [Invoke 0, Request 0 (count (semaphore idle) - 1) (axios_get hola),
      Backoff 0 (count (semaphore idle) - 1) (RETRY_DELAY * 2 ^ 0),
      Invoke (0 + 1), Released 0 (count (semaphore idle) - 1)]"
    unfolding ev by simp
  with sm h1 h2 h3 h4 h5 show ?thesis by blast
qed

section \<open>Caching of translations\<close>





section \<open>Batches\<close>




section \<open>Cancellation\<close>

lemma translate_p7_options:
  "translate_p7 up targetLang sourceLang text opts w = translate_p7 up targetLang sourceLang text None w"
  by (simp add: translate_p7_def)

text \<open>
  C9. \<open>translate\<close> accepts the argument \<open>options\<close> and never reads it: no request carries a
  signal, and a call has the same outcome with and without it. Called with an abort signal
  that has already fired, while the first response has status 503, it sends the request, sleeps,
  sends it again and returns the translation.
\<close>

theorem translate_ignores_abort_signal:
  "translate_p7 (fails_once e503) ''en'' ''es'' ''Hola'' aborted_signal idle =
     (idle\<lparr>clock := 747,
           trace := [Invoke 0, Request 0 3 (axios_get hola), Backoff 0 3 500, Invoke 1,
                     Request 1 3 (axios_get hola)]\<rparr>,
      Returned ''Hello'') \<and>
   req_signal (axios_get hola) = None"
  by code_simp

end
